theory Spec2Isabelle
  imports Main "HOL-Library.Word"
begin

unbundle bit_operations_syntax

section \<open>JavaScript values used by the hi-res code\<close>

text \<open>
  A \<^verbatim>\<open>Uint8Array\<close> is a list of bytes. Reading an element outside the array gives
  \<^verbatim>\<open>undefined\<close> (here \<open>None\<close>); writing outside the array is silently ignored; a stored
  number is reduced modulo 256. In the bitwise operators \<^verbatim>\<open>undefined\<close> counts as 0.
  Numbers are modelled as \<open>int\<close>: every operand of a bitwise operator in the modelled
  functions lies in the non-negative signed 32-bit range, except the RGBA colours, which
  are converted explicitly.
\<close>

type_synonym byte = "8 word"

datatype error =
    AssertionFailed
  | RangeError
  | UnhandledXferMode
  | UndoContextAlreadyOpen
  | BadBefore

text \<open>An operation on a mutable object either returns or throws; the object's state
  at that moment is kept in both cases.\<close>

datatype 's outcome = Returned 's | Threw error 's

fun state_of :: "'s outcome \<Rightarrow> 's" where
  "state_of (Returned s) = s"
| "state_of (Threw e s) = s"

definition aget :: "'a list \<Rightarrow> int \<Rightarrow> 'a option" where
  "aget a i = (if 0 \<le> i \<and> i < int (length a) then Some (a ! nat i) else None)"

definition aset :: "byte list \<Rightarrow> int \<Rightarrow> int \<Rightarrow> byte list" where
  "aset a i v = (if 0 \<le> i \<and> i < int (length a) then a[nat i := word_of_int v] else a)"

fun toInt32 :: "byte option \<Rightarrow> int" where
  "toInt32 None = 0"
| "toInt32 (Some b) = uint b"

fun num_or_zero :: "int option \<Rightarrow> int" where
  "num_or_zero None = 0"
| "num_or_zero (Some n) = n"

text \<open>The signed 32-bit value on which the bitwise operators work.\<close>

definition to_int32 :: "int \<Rightarrow> int" where
  "to_int32 v = sint (word_of_int v :: 32 word)"

text \<open>\<^verbatim>\<open>Math.trunc(a / b)\<close> and the remainder operator \<^verbatim>\<open>a % b\<close> (sign of the dividend).\<close>

definition js_trunc_div :: "int \<Rightarrow> int \<Rightarrow> int" where
  "js_trunc_div a b = (if (a < 0) = (b < 0) then \<bar>a\<bar> div \<bar>b\<bar> else - (\<bar>a\<bar> div \<bar>b\<bar>))"

definition js_rem :: "int \<Rightarrow> int \<Rightarrow> int" where
  "js_rem a b = a - b * js_trunc_div a b"

text \<open>Shifts by a variable amount use the low five bits of the count.\<close>

definition js_shl :: "int \<Rightarrow> int \<Rightarrow> int" where
  "js_shl a n = push_bit (nat (n mod 32)) a"

definition js_shr :: "int \<Rightarrow> int \<Rightarrow> int" where
  "js_shr a n = drop_bit (nat (n mod 32)) a"

section \<open>StdHiRes: constants and patterns\<close>

abbreviation NUM_COLS :: int where "NUM_COLS \<equiv> 280"
abbreviation NUM_COL_BYTES :: int where "NUM_COL_BYTES \<equiv> 40"
abbreviation NUM_ROWS :: int where "NUM_ROWS \<equiv> 192"
abbreviation MODE_BYTE_OFFSET :: int where "MODE_BYTE_OFFSET \<equiv> 120"
abbreviation SIG_BYTE_OFFSET :: int where "SIG_BYTE_OFFSET \<equiv> 121"
abbreviation PATTERN_LEN :: int where "PATTERN_LEN \<equiv> 8"

definition SIGNATURE :: "byte list" where
  "SIGNATURE = [0x48, 0x47, 0x52, 0x54, 0x6f, 0x6f, 0x6c]"

text \<open>
  A colour pattern is a \<^verbatim>\<open>Uint8Array\<close>. The two transparent patterns are the objects
  \<^verbatim>\<open>StdHiRes.HI_BIT_CLEAR\<close> and \<^verbatim>\<open>StdHiRes.HI_BIT_SET\<close>, recognised by reference
  (\<^verbatim>\<open>pat == StdHiRes.HI_BIT_CLEAR\<close>), not by content: the reference is the constructor
  here, and any other array, whatever its bytes, is \<open>Opaque\<close>.
\<close>

datatype pattern = HI_BIT_CLEAR | HI_BIT_SET | Opaque "byte list"

fun pat_bytes :: "pattern \<Rightarrow> byte list" where
  "pat_bytes HI_BIT_CLEAR = replicate 8 0"
| "pat_bytes HI_BIT_SET = [0x80, 0x80, 0x80, 0x80, 0x80, 0x80, 0x80, 0x80]"
| "pat_bytes (Opaque bs) = bs"

fun checkMsbPattern :: "pattern \<Rightarrow> int" where
  "checkMsbPattern HI_BIT_CLEAR = 0x00"
| "checkMsbPattern HI_BIT_SET = 0x80"
| "checkMsbPattern (Opaque bs) = -1"

definition isValidScreenArea :: "int \<Rightarrow> int \<Rightarrow> int \<Rightarrow> int \<Rightarrow> bool" where
  "isValidScreenArea left top_row width height \<longleftrightarrow>
     left \<ge> 0 \<and> left < NUM_COLS \<and> top_row \<ge> 0 \<and> top_row < NUM_ROWS \<and>
     width > 0 \<and> width + left \<le> NUM_COLS \<and> height > 0 \<and> top_row + height \<le> NUM_ROWS"

section \<open>rowToOffset\<close>

definition rowToOffset :: "int \<Rightarrow> error + int" where
  "rowToOffset rowNum =
     (if \<not> (rowNum \<ge> 0 \<and> rowNum < NUM_ROWS) then Inl AssertionFailed
      else
        let low = drop_bit 1 (rowNum AND 0xc0) OR drop_bit 3 (rowNum AND 0xc0)
                    OR push_bit 4 (rowNum AND 0x08);
            high = push_bit 2 (rowNum AND 0x07) OR drop_bit 4 (rowNum AND 0x30)
        in Inr (push_bit 8 high OR low))"

text \<open>The row encoded in an offset \<^verbatim>\<open>pppFGHCD EABAB000\<close>; used only in proofs.\<close>

definition offsetToRow :: "int \<Rightarrow> int" where
  "offsetToRow off =
     (drop_bit 10 off AND 7) OR push_bit 4 (drop_bit 8 off AND 3)
       OR push_bit 3 (drop_bit 7 off AND 1) OR push_bit 6 (drop_bit 5 off AND 3)"

section \<open>setPixel\<close>

definition setPixel :: "byte list \<Rightarrow> int \<Rightarrow> int \<Rightarrow> pattern \<Rightarrow> byte list outcome" where
  "setPixel rawBytes x y pat =
     (if \<not> (x \<ge> 0 \<and> x < NUM_COLS \<and> y \<ge> 0 \<and> y < NUM_ROWS \<and>
             int (length (pat_bytes pat)) = PATTERN_LEN)
      then Threw AssertionFailed rawBytes
      else case rowToOffset y of
        Inl e \<Rightarrow> Threw e rawBytes
      | Inr rowOffset \<Rightarrow>
          let colOffset = js_trunc_div x 7;
              patByte = toInt32 (aget (pat_bytes pat)
                          ((colOffset AND 0x03) OR push_bit 2 (y AND 0x01)));
              pixelMask = (if checkMsbPattern pat < 0
                           then 0x80 OR js_shl 1 (js_rem x 7) else 0x80);
              curVal = toInt32 (aget rawBytes (rowOffset + colOffset));
              newVal = ((patByte XOR curVal) AND pixelMask) XOR curVal
          in Returned (aset rawBytes (rowOffset + colOffset) newVal))"

section \<open>Rendering\<close>

definition bitsToColor :: "int list" where
  "bitsToColor = [0, 0, 1, 3, 0, 2, 3, 3,  0, 0, 2, 3, 0, 1, 3, 3]"

text \<open>The palette entries Black, Purple, LightGreen, White, Black, MediumBlue, Orange, White.\<close>

definition colorToRGBA :: "int list" where
  "colorToRGBA = [0x000000ff, 0xdd22ddff, 0x11dd00ff, 0xffffffff,
                  0x000000ff, 0x2222ffff, 0xff6600ff, 0xffffffff]"

definition hasSignature :: "byte list \<Rightarrow> bool" where
  "hasSignature rawBytes \<longleftrightarrow>
     list_all (\<lambda>i. aget rawBytes (SIG_BYTE_OFFSET + int i) = aget SIGNATURE (int i))
       [0 ..< length SIGNATURE]"

text \<open>The raw bytes that the constructor of \<^verbatim>\<open>StdHiRes\<close> makes for a new image
  (\<^verbatim>\<open>arrayBuffer === undefined\<close>): zeros, the mode byte 1 and the signature.\<close>

abbreviation MIN_LEN :: int where "MIN_LEN \<equiv> 8192 - 8"

definition new_StdHiRes :: "byte list" where
  "new_StdHiRes =
     foldl (\<lambda>rawBytes i. aset rawBytes (SIG_BYTE_OFFSET + int i) (toInt32 (aget SIGNATURE (int i))))
       (aset (replicate (nat MIN_LEN) 0) MODE_BYTE_OFFSET 1) [0 ..< length SIGNATURE]"

text \<open>The colour bytes stored in the \<^verbatim>\<open>Uint8ClampedArray\<close> are already between 0 and 255.\<close>

definition setRGBAColor :: "byte list \<Rightarrow> int \<Rightarrow> int \<Rightarrow> int \<Rightarrow> int option \<Rightarrow> byte list outcome" where
  "setRGBAColor rgbaData xc yc pixelStride color =
     (case color of
        None \<Rightarrow> Threw AssertionFailed rgbaData
      | Some c \<Rightarrow>
          let bytesPer = 4;
              rowOffset = yc * pixelStride * bytesPer;
              colOffset = rowOffset + xc * bytesPer;
              d1 = aset rgbaData colOffset (drop_bit 24 (to_int32 c) AND 0xff);
              d2 = aset d1 (colOffset + 1) (drop_bit 16 (to_int32 c) AND 0xff);
              d3 = aset d2 (colOffset + 2) (drop_bit 8 (to_int32 c) AND 0xff)
          in Returned (aset d3 (colOffset + 3) (to_int32 c AND 0xff)))"

text \<open>
  The two outputs of a line renderer: the RGBA pixel storage and the colour map, each of
  which may be \<^verbatim>\<open>undefined\<close>.
\<close>

type_synonym canvas = "byte list option \<times> byte list option"

text \<open>
  The two statements that both line renderers run for each pixel:
  \<^verbatim>\<open>if (rgbaData != undefined) StdHiRes.setRGBAColor(rgbaData, col, row, NUM_COLS, rgbaColors[index])\<close>
  and \<^verbatim>\<open>if (colorMap != undefined) colorMap[row * NUM_COLS + col] = index\<close>.
\<close>

definition emit_index :: "canvas \<Rightarrow> int \<Rightarrow> int \<Rightarrow> int \<Rightarrow> canvas outcome" where
  "emit_index cv row col index =
     (case cv of (rgbaData, colorMap) \<Rightarrow>
        let stored = map_option (\<lambda>m. aset m (row * NUM_COLS + col) index) colorMap in
        (case rgbaData of
           None \<Rightarrow> Returned (None, stored)
         | Some d \<Rightarrow>
             (case setRGBAColor d col row NUM_COLS (aget colorToRGBA index) of
                Threw e d' \<Rightarrow> Threw e (Some d', colorMap)
              | Returned d' \<Rightarrow> Returned (Some d', stored))))"

function mono_for :: "int \<Rightarrow> int \<Rightarrow> int \<Rightarrow> int \<Rightarrow> int \<Rightarrow> int \<Rightarrow> canvas \<Rightarrow> canvas outcome" where
  "mono_for row byteCol highAdj loopStop curBit byteVal cv =
     (if curBit \<le> loopStop then
        let index = (((byteVal AND 0x01) OR push_bit 1 byteVal) AND 0x03) OR highAdj in
        (case emit_index cv row (byteCol * 7 + curBit) index of
           Threw e cv' \<Rightarrow> Threw e cv'
         | Returned cv' \<Rightarrow>
             mono_for row byteCol highAdj loopStop (curBit + 1) (drop_bit 1 byteVal) cv')
      else Returned cv)"
  by pat_completeness auto
termination
  by (relation "measure (\<lambda>(row, byteCol, highAdj, loopStop, curBit, byteVal, cv).
        nat (loopStop + 1 - curBit))") auto

declare mono_for.simps [simp del]

function mono_while ::
  "byte list \<Rightarrow> int \<Rightarrow> int \<Rightarrow> int \<Rightarrow> int \<Rightarrow> int \<Rightarrow> int \<Rightarrow> canvas \<Rightarrow> canvas outcome" where
  "mono_while rawBytes row rowOffset lastBit byteCol curBit width cv =
     (if width > 0 then
        let byteVal = js_shr (toInt32 (aget rawBytes (rowOffset + byteCol))) curBit;
            highAdj = drop_bit 5 (byteVal AND 0x80);
            width' = width - (7 - curBit);
            loopStop = (if width' \<le> 0 then lastBit else 6)
        in (case mono_for row byteCol highAdj loopStop curBit byteVal cv of
              Threw e cv' \<Rightarrow> Threw e cv'
            | Returned cv' \<Rightarrow>
                mono_while rawBytes row rowOffset lastBit (byteCol + 1) 0 width' cv')
      else Returned cv)"
  by pat_completeness auto
termination
  by (relation "measure (\<lambda>(rawBytes, row, rowOffset, lastBit, byteCol, curBit, width, cv).
        nat (width + (if curBit \<ge> 7 then curBit - 6 else 0)))") auto

declare mono_while.simps [simp del]

definition renderLineAsMono ::
  "byte list \<Rightarrow> byte list option \<Rightarrow> int \<Rightarrow> int \<Rightarrow> int \<Rightarrow> byte list option \<Rightarrow> canvas outcome" where
  "renderLineAsMono rawBytes rgbaData row left width colorMap =
     (case rowToOffset row of
        Inl e \<Rightarrow> Threw e (rgbaData, colorMap)
      | Inr rowOffset \<Rightarrow>
          let byteCol = js_trunc_div left 7;
              curBit = js_rem left 7;
              lastBit = js_rem (left + width - 1) 7
          in mono_while rawBytes row rowOffset lastBit byteCol curBit width (rgbaData, colorMap))"

function color_for ::
  "int \<Rightarrow> int \<Rightarrow> int \<Rightarrow> int \<Rightarrow> int \<Rightarrow> int \<Rightarrow> canvas \<times> int \<times> int
     \<Rightarrow> (canvas \<times> int \<times> int) outcome" where
  "color_for row byteCol highAdj loopStop curBit byteVal (cv, prevBit, oddAdj) =
     (if curBit \<le> loopStop then
        let bits = push_bit 2 prevBit OR push_bit 1 (byteVal AND 0x01)
                     OR drop_bit 1 (byteVal AND 0x02);
            colorIndex = num_or_zero (aget bitsToColor (bits OR oddAdj)) OR highAdj
        in (case emit_index cv row (byteCol * 7 + curBit) colorIndex of
              Threw e cv' \<Rightarrow> Threw e (cv', prevBit, oddAdj)
            | Returned cv' \<Rightarrow>
                color_for row byteCol highAdj loopStop (curBit + 1) (drop_bit 1 byteVal)
                  (cv', byteVal AND 0x01, 8 - oddAdj))
      else Returned (cv, prevBit, oddAdj))"
  by pat_completeness auto
termination
  by (relation "measure (\<lambda>(row, byteCol, highAdj, loopStop, curBit, byteVal, st).
        nat (loopStop + 1 - curBit))") auto

declare color_for.simps [simp del]

function color_while ::
  "byte list \<Rightarrow> int \<Rightarrow> int \<Rightarrow> int \<Rightarrow> int \<Rightarrow> int \<Rightarrow> int \<Rightarrow> canvas \<times> int \<times> int
     \<Rightarrow> (canvas \<times> int \<times> int) outcome" where
  "color_while rawBytes row rowOffset lastBit byteCol curBit width st =
     (if width > 0 then
        let byteVal0 = toInt32 (aget rawBytes (rowOffset + byteCol));
            highAdj = drop_bit 5 (byteVal0 AND 0x80);
            byteVal1 = byteVal0 AND 0x7f;
            byteVal2 = (if byteCol < NUM_COL_BYTES - 1
                        then byteVal1 OR
                          push_bit 7 (toInt32 (aget rawBytes (rowOffset + byteCol + 1)) AND 0x01)
                        else byteVal1);
            byteVal = js_shr byteVal2 curBit;
            width' = width - (7 - curBit);
            loopStop = (if width' \<le> 0 then lastBit else 6)
        in (case color_for row byteCol highAdj loopStop curBit byteVal st of
              Threw e st' \<Rightarrow> Threw e st'
            | Returned st' \<Rightarrow>
                color_while rawBytes row rowOffset lastBit (byteCol + 1) 0 width' st')
      else Returned st)"
  by pat_completeness auto
termination
  by (relation "measure (\<lambda>(rawBytes, row, rowOffset, lastBit, byteCol, curBit, width, st).
        nat (width + (if curBit \<ge> 7 then curBit - 6 else 0)))") auto

declare color_while.simps [simp del]

definition renderLineAsColor ::
  "byte list \<Rightarrow> byte list option \<Rightarrow> int \<Rightarrow> int \<Rightarrow> int \<Rightarrow> byte list option \<Rightarrow> canvas outcome" where
  "renderLineAsColor rawBytes rgbaData row left width colorMap =
     (case rowToOffset row of
        Inl e \<Rightarrow> Threw e (rgbaData, colorMap)
      | Inr rowOffset \<Rightarrow>
          let byteCol = js_trunc_div left 7;
              curBit = js_rem left 7;
              lastBit = js_rem (left + width - 1) 7;
              oddAdj = push_bit 3 (left AND 0x01);
              prevBit =
                (if left = 0 then 0
                 else if curBit = 0
                   then drop_bit 6 (toInt32 (aget rawBytes (rowOffset + byteCol - 1))) AND 0x01
                   else js_shr (toInt32 (aget rawBytes (rowOffset + byteCol))) (curBit - 1)
                          AND 0x01)
          in if \<not> (prevBit = 0 \<or> prevBit = 1) then Threw AssertionFailed (rgbaData, colorMap)
             else (case color_while rawBytes row rowOffset lastBit byteCol curBit width
                          ((rgbaData, colorMap), prevBit, oddAdj) of
                     Threw e st \<Rightarrow> Threw e (fst st)
                   | Returned st \<Rightarrow> Returned (fst st)))"

text \<open>The RGBA array after a line renderer has run on it (the same object that was passed).\<close>

definition rgba_of :: "canvas \<Rightarrow> byte list \<Rightarrow> byte list" where
  "rgba_of cv d = (case fst cv of Some d' \<Rightarrow> d' | None \<Rightarrow> d)"

function render_rows ::
  "byte list \<Rightarrow> bool \<Rightarrow> int \<Rightarrow> int \<Rightarrow> int \<Rightarrow> int \<Rightarrow> byte list \<Rightarrow> byte list outcome" where
  "render_rows rawBytes asMono left width row stop rgbaData =
     (if row < stop then
        (case (if asMono then renderLineAsMono rawBytes (Some rgbaData) row left width None
               else renderLineAsColor rawBytes (Some rgbaData) row left width None) of
           Threw e cv \<Rightarrow> Threw e (rgba_of cv rgbaData)
         | Returned cv \<Rightarrow>
             render_rows rawBytes asMono left width (row + 1) stop (rgba_of cv rgbaData))
      else Returned rgbaData)"
  by pat_completeness auto
termination
  by (relation "measure (\<lambda>(rawBytes, asMono, left, width, row, stop, rgbaData).
        nat (stop - row))") auto

declare render_rows.simps [simp del]

text \<open>\<^verbatim>\<open>renderArea\<close> works on the raw bytes of the image and on the pixel storage of the
  \<^verbatim>\<open>ImageData\<close> object.\<close>

definition renderArea ::
  "byte list \<times> byte list \<Rightarrow> bool \<Rightarrow> int \<Rightarrow> int \<Rightarrow> int \<Rightarrow> int
     \<Rightarrow> (byte list \<times> byte list) outcome" where
  "renderArea st asMono left top_row width height =
     (case st of (rawBytes, rgbaData) \<Rightarrow>
      if \<not> isValidScreenArea left top_row width height
      then Threw AssertionFailed (rawBytes, rgbaData)
      else
        let rawBytes' = (if hasSignature rawBytes
                         then aset rawBytes MODE_BYTE_OFFSET (if asMono then 0 else 1)
                         else rawBytes);
            newLeft = (if js_rem left 7 = 0 then (if left = 0 then left else left - 1)
                       else js_trunc_div left 7 * 7);
            incRight0 = left + width - 1;
            incRight = (if js_rem incRight0 7 = 7 - 1
                        then (if incRight0 < NUM_COLS - 1 then incRight0 + 1 else incRight0)
                        else js_trunc_div incRight0 7 * 7 + 7 - 1);
            newWidth = incRight - newLeft + 1;
            left' = (if \<not> asMono then newLeft else left);
            width' = (if \<not> asMono then newWidth else width)
        in (case render_rows rawBytes' asMono left' width' top_row (top_row + height) rgbaData of
              Threw e d \<Rightarrow> Threw e (rawBytes', d)
            | Returned d \<Rightarrow> Returned (rawBytes', d)))"

section \<open>The colour map\<close>

function normalize_row :: "int \<Rightarrow> int \<Rightarrow> byte list \<Rightarrow> byte list" where
  "normalize_row rowOffset col cmap =
     (if col < NUM_COLS then
        let val = aget cmap (rowOffset + col) in
        normalize_row rowOffset (col + 1)
          (if val = Some 4 then aset cmap (rowOffset + col) 0
           else if val = Some 7 then aset cmap (rowOffset + col) 3
           else cmap)
      else cmap)"
  by pat_completeness auto
termination
  by (relation "measure (\<lambda>(rowOffset, col, cmap). nat (NUM_COLS - col))") auto

declare normalize_row.simps [simp del]

text \<open>The map after a line renderer has run on it.\<close>

definition cmap_of :: "canvas \<Rightarrow> byte list \<Rightarrow> byte list" where
  "cmap_of cv m = (case snd cv of Some m' \<Rightarrow> m' | None \<Rightarrow> m)"

function colormap_rows :: "byte list \<Rightarrow> bool \<Rightarrow> int \<Rightarrow> byte list \<Rightarrow> error + byte list" where
  "colormap_rows rawBytes asMono row cmap =
     (if row < NUM_ROWS then
        (case (if asMono then renderLineAsMono rawBytes None row 0 NUM_COLS (Some cmap)
               else renderLineAsColor rawBytes None row 0 NUM_COLS (Some cmap)) of
           Threw e cv \<Rightarrow> Inl e
         | Returned cv \<Rightarrow>
             colormap_rows rawBytes asMono (row + 1)
               (normalize_row (row * NUM_COLS) 0 (cmap_of cv cmap)))
      else Inr cmap)"
  by pat_completeness auto
termination
  by (relation "measure (\<lambda>(rawBytes, asMono, row, cmap). nat (NUM_ROWS - row))") auto

declare colormap_rows.simps [simp del]

definition generateColorMap :: "byte list \<Rightarrow> bool \<Rightarrow> error + byte list" where
  "generateColorMap rawBytes asMono =
     colormap_rows rawBytes asMono 0 (replicate (nat (NUM_COLS * NUM_ROWS)) 0)"

section \<open>Clippings\<close>

definition XFER_COPY :: string where "XFER_COPY = ''copy''"
definition XFER_MERGE :: string where "XFER_MERGE = ''merge''"
definition XFER_XOR :: string where "XFER_XOR = ''xor''"
definition FORMAT_NAME :: string where "FORMAT_NAME = ''std-hi-res''"

definition isValidXferMode :: "string \<Rightarrow> bool" where
  "isValidXferMode xferMode \<longleftrightarrow>
     xferMode = XFER_COPY \<or> xferMode = XFER_MERGE \<or> xferMode = XFER_XOR"

record clipping =
  c_source :: string
  c_width :: int
  c_height :: int
  c_byteStride :: int
  c_leftOff :: int
  c_pixArray :: "byte list"
  c_maskArray :: "byte list"

text \<open>The constructor of \<^verbatim>\<open>Clipping\<close>; its second assertion, that both arrays are
  \<^verbatim>\<open>Uint8Array\<close>s, holds by typing.\<close>

definition new_Clipping ::
  "string \<Rightarrow> int \<Rightarrow> int \<Rightarrow> int \<Rightarrow> int \<Rightarrow> byte list \<Rightarrow> byte list \<Rightarrow> error + clipping" where
  "new_Clipping source width height byteStride leftOff pixArray maskArray =
     (if \<not> (width > 0 \<and> height > 0 \<and> leftOff \<ge> 0) then Inl AssertionFailed
      else Inr \<lparr>c_source = source, c_width = width, c_height = height,
                c_byteStride = byteStride, c_leftOff = leftOff,
                c_pixArray = pixArray, c_maskArray = maskArray\<rparr>)"

function clip_cols ::
  "byte list \<Rightarrow> int \<Rightarrow> int \<Rightarrow> int \<Rightarrow> int \<Rightarrow> int \<Rightarrow> int \<Rightarrow> int
     \<Rightarrow> byte list \<times> byte list \<Rightarrow> byte list \<times> byte list" where
  "clip_cols rawBytes leftByteCol rightByteCol leftMask rightMask col srcOffset dstOffset
       (pixArray, maskArray) =
     (if col \<le> rightByteCol then
        let mask = (if col = leftByteCol
                    then (if leftByteCol = rightByteCol then leftMask AND rightMask
                          else leftMask)
                    else if col = rightByteCol then rightMask
                    else 0xff);
            maskArray' = aset maskArray dstOffset mask;
            pixArray' = aset pixArray dstOffset (toInt32 (aget rawBytes srcOffset))
        in clip_cols rawBytes leftByteCol rightByteCol leftMask rightMask (col + 1)
             (srcOffset + 1) (dstOffset + 1) (pixArray', maskArray')
      else (pixArray, maskArray))"
  by pat_completeness auto
termination
  by (relation "measure (\<lambda>(rawBytes, leftByteCol, rightByteCol, leftMask, rightMask, col,
        srcOffset, dstOffset, arrays). nat (rightByteCol + 1 - col))") auto

declare clip_cols.simps [simp del]

function clip_rows ::
  "byte list \<Rightarrow> int \<Rightarrow> int \<Rightarrow> int \<Rightarrow> int \<Rightarrow> int \<Rightarrow> int \<Rightarrow> int \<Rightarrow> int
     \<Rightarrow> byte list \<times> byte list \<Rightarrow> error + byte list \<times> byte list" where
  "clip_rows rawBytes top_row height leftByteCol rightByteCol byteWidth leftMask rightMask row
       arrays =
     (if row < height then
        (case rowToOffset (top_row + row) of
           Inl e \<Rightarrow> Inl e
         | Inr off \<Rightarrow>
             let srcOffset = off + leftByteCol;
                 dstOffset = row * byteWidth
             in clip_rows rawBytes top_row height leftByteCol rightByteCol byteWidth leftMask
                  rightMask (row + 1)
                  (clip_cols rawBytes leftByteCol rightByteCol leftMask rightMask leftByteCol
                     srcOffset dstOffset arrays))
      else Inr arrays)"
  by pat_completeness auto
termination
  by (relation "measure (\<lambda>(rawBytes, top_row, height, leftByteCol, rightByteCol, byteWidth,
        leftMask, rightMask, row, arrays). nat (height - row))") auto

declare clip_rows.simps [simp del]

definition createClipping :: "byte list \<Rightarrow> int \<Rightarrow> int \<Rightarrow> int \<Rightarrow> int \<Rightarrow> error + clipping" where
  "createClipping rawBytes left top_row width height =
     (if \<not> isValidScreenArea left top_row width height then Inl AssertionFailed
      else
        let leftByteCol = js_trunc_div left 7;
            rightByteCol = js_trunc_div (left + width - 1) 7;
            byteWidth = rightByteCol - leftByteCol + 1;
            arrayLen = byteWidth * height;
            xoffLeft = left - leftByteCol * 7;
            pixArray = replicate (nat arrayLen) 0;
            maskArray = replicate (nat arrayLen) 0;
            leftMask = js_shl 0xff (js_rem left 7) AND 0xff;
            rightMask = js_shr 0x7f (6 - js_rem (left + width - 1) 7) OR 0x80
        in (case clip_rows rawBytes top_row height leftByteCol rightByteCol byteWidth leftMask
                   rightMask 0 (pixArray, maskArray) of
              Inl e \<Rightarrow> Inl e
            | Inr arrays \<Rightarrow>
                new_Clipping FORMAT_NAME width height byteWidth xoffLeft
                  (fst arrays) (snd arrays)))"

text \<open>The two ways in which \<^verbatim>\<open>putClipping\<close> fills its temporary row arrays.\<close>

function copy_tmp ::
  "clipping \<Rightarrow> int \<Rightarrow> int \<Rightarrow> byte list \<times> byte list \<Rightarrow> byte list \<times> byte list" where
  "copy_tmp clipping srcOffset i (pixTmp, maskTmp) =
     (if i < c_byteStride clipping then
        copy_tmp clipping srcOffset (i + 1)
          (aset pixTmp i (toInt32 (aget (c_pixArray clipping) (srcOffset + i))),
           aset maskTmp i (toInt32 (aget (c_maskArray clipping) (srcOffset + i))))
      else (pixTmp, maskTmp))"
  by pat_completeness auto
termination
  by (relation "measure (\<lambda>(clipping, srcOffset, i, tmps). nat (c_byteStride clipping - i))") auto

declare copy_tmp.simps [simp del]

function shift_tmp ::
  "clipping \<Rightarrow> int \<Rightarrow> int \<Rightarrow> int \<Rightarrow> int \<Rightarrow> int \<Rightarrow> byte list \<times> byte list
     \<Rightarrow> byte list \<times> byte list" where
  "shift_tmp clipping srcOffset shiftDist revShift shiftMaskHi i (pixTmp, maskTmp) =
     (if i < c_byteStride clipping then
        let pixByte = toInt32 (aget (c_pixArray clipping) (srcOffset + i));
            maskByte = toInt32 (aget (c_maskArray clipping) (srcOffset + i));
            pixTmp1 = aset pixTmp i
                        (toInt32 (aget pixTmp i) OR (js_shl pixByte shiftDist AND 0x7f));
            maskTmp1 = aset maskTmp i
                        (toInt32 (aget maskTmp i) OR (js_shl maskByte shiftDist AND 0x7f));
            pixTmp2 = aset pixTmp1 (i + 1)
                        ((js_shr pixByte revShift AND shiftMaskHi) OR (pixByte AND 0x80));
            maskTmp2 = aset maskTmp1 (i + 1)
                        ((js_shr maskByte revShift AND shiftMaskHi) OR (maskByte AND 0x80))
        in shift_tmp clipping srcOffset shiftDist revShift shiftMaskHi (i + 1)
             (pixTmp2, maskTmp2)
      else (pixTmp, maskTmp))"
  by pat_completeness auto
termination
  by (relation "measure (\<lambda>(clipping, srcOffset, shiftDist, revShift, shiftMaskHi, i, tmps).
        nat (c_byteStride clipping - i))") auto

declare shift_tmp.simps [simp del]

function put_cols ::
  "string \<Rightarrow> int \<Rightarrow> int \<Rightarrow> int \<Rightarrow> int \<Rightarrow> byte list \<Rightarrow> byte list \<Rightarrow> int \<Rightarrow> byte list
     \<Rightarrow> byte list outcome" where
  "put_cols xferMode rowOffset leftOutCol copyWidth adjustedStart pixTmp maskTmp byteCol
       rawBytes =
     (if byteCol < copyWidth then
        let hgrByteCol = leftOutCol + byteCol in
        if hgrByteCol < 0
        then put_cols xferMode rowOffset leftOutCol copyWidth adjustedStart pixTmp maskTmp
               (byteCol + 1) rawBytes
        else if hgrByteCol \<ge> NUM_COL_BYTES then Returned rawBytes
        else if \<not> (byteCol + adjustedStart < int (length pixTmp))
        then Threw AssertionFailed rawBytes
        else
          let srcByte = toInt32 (aget pixTmp (byteCol + adjustedStart));
              srcMask = toInt32 (aget maskTmp (byteCol + adjustedStart));
              curVal = toInt32 (aget rawBytes (rowOffset + hgrByteCol))
          in if xferMode = XFER_MERGE
             then put_cols xferMode rowOffset leftOutCol copyWidth adjustedStart pixTmp maskTmp
                    (byteCol + 1)
                    (aset rawBytes (rowOffset + hgrByteCol) (curVal OR (srcByte AND srcMask)))
             else if xferMode = XFER_COPY
             then put_cols xferMode rowOffset leftOutCol copyWidth adjustedStart pixTmp maskTmp
                    (byteCol + 1)
                    (aset rawBytes (rowOffset + hgrByteCol)
                       (((srcByte XOR curVal) AND srcMask) XOR curVal))
             else if xferMode = XFER_XOR
             then put_cols xferMode rowOffset leftOutCol copyWidth adjustedStart pixTmp maskTmp
                    (byteCol + 1)
                    (aset rawBytes (rowOffset + hgrByteCol) (curVal XOR (srcByte AND srcMask)))
             else Threw UnhandledXferMode rawBytes
      else Returned rawBytes)"
  by pat_completeness auto
termination
  by (relation "measure (\<lambda>(xferMode, rowOffset, leftOutCol, copyWidth, adjustedStart, pixTmp,
        maskTmp, byteCol, rawBytes). nat (copyWidth - byteCol))") auto

declare put_cols.simps [simp del]

text \<open>The state of the row loop: the raw bytes and the two temporary arrays, which are
  allocated once and reused for every row.\<close>

function put_rows ::
  "clipping \<Rightarrow> int \<Rightarrow> string \<Rightarrow> int \<Rightarrow> int \<Rightarrow> int \<Rightarrow> int \<Rightarrow> int
     \<Rightarrow> byte list \<times> byte list \<times> byte list \<Rightarrow> (byte list \<times> byte list \<times> byte list) outcome" where
  "put_rows clipping yc xferMode shiftDist adjustedStart leftOutCol copyWidth row
       (rawBytes, pixTmp, maskTmp) =
     (if row < c_height clipping then
        let hgrRow = row + yc in
        if hgrRow < 0
        then put_rows clipping yc xferMode shiftDist adjustedStart leftOutCol copyWidth (row + 1)
               (rawBytes, pixTmp, maskTmp)
        else if hgrRow \<ge> NUM_ROWS then Returned (rawBytes, pixTmp, maskTmp)
        else
          (case rowToOffset hgrRow of
             Inl e \<Rightarrow> Threw e (rawBytes, pixTmp, maskTmp)
           | Inr rowOffset \<Rightarrow>
               let srcOffset = row * c_byteStride clipping;
                   tmps =
                     (if shiftDist = 0 then copy_tmp clipping srcOffset 0 (pixTmp, maskTmp)
                      else
                        let revShift = 7 - shiftDist;
                            shiftMaskHi = js_shr 0x7f revShift;
                            pixTmp0 = aset pixTmp 0
                              (toInt32 (aget (c_pixArray clipping) srcOffset) AND 0x80);
                            maskTmp0 = aset maskTmp 0
                              (toInt32 (aget (c_maskArray clipping) srcOffset) AND 0x80)
                        in shift_tmp clipping srcOffset shiftDist revShift shiftMaskHi 0
                             (pixTmp0, maskTmp0))
               in (case put_cols xferMode rowOffset leftOutCol copyWidth adjustedStart
                          (fst tmps) (snd tmps) 0 rawBytes of
                     Threw e rawBytes' \<Rightarrow> Threw e (rawBytes', fst tmps, snd tmps)
                   | Returned rawBytes' \<Rightarrow>
                       put_rows clipping yc xferMode shiftDist adjustedStart leftOutCol
                         copyWidth (row + 1) (rawBytes', fst tmps, snd tmps)))
      else Returned (rawBytes, pixTmp, maskTmp))"
  by pat_completeness auto
termination
  by (relation "measure (\<lambda>(clipping, yc, xferMode, shiftDist, adjustedStart, leftOutCol,
        copyWidth, row, st). nat (c_height clipping - row))") auto

declare put_rows.simps [simp del]

definition putClipping :: "byte list \<Rightarrow> clipping \<Rightarrow> int \<Rightarrow> int \<Rightarrow> string \<Rightarrow> byte list outcome" where
  "putClipping rawBytes clipping xc yc xferMode =
     (if \<not> (c_leftOff clipping \<ge> 0 \<and> c_leftOff clipping < 7)
      then Threw AssertionFailed rawBytes
      else if \<not> isValidXferMode xferMode then Threw AssertionFailed rawBytes
      else
        let leftOutCol = xc div 7;
            rightOutCol = (xc + c_width clipping - 1) div 7
        in if c_byteStride clipping + 1 < 0 then Threw RangeError rawBytes
           else
             let pixTmp = replicate (nat (c_byteStride clipping + 1)) 0;
                 maskTmp = replicate (nat (c_byteStride clipping + 1)) 0;
                 xmod7 = (if js_rem xc 7 < 0 then js_rem xc 7 + 7 else js_rem xc 7);
                 shiftDist0 = xmod7 - c_leftOff clipping;
                 shiftDist = (if shiftDist0 < 0 then shiftDist0 + 7 else shiftDist0);
                 adjustedStart = (if shiftDist0 < 0 then 1 else 0);
                 copyWidth = rightOutCol - leftOutCol + 1
             in if \<not> (copyWidth + adjustedStart \<le> c_byteStride clipping + 1)
                then Threw AssertionFailed rawBytes
                else
                  (case put_rows clipping yc xferMode shiftDist adjustedStart leftOutCol
                          copyWidth 0 (rawBytes, pixTmp, maskTmp) of
                     Threw e st \<Rightarrow> Threw e (fst st)
                   | Returned st \<Rightarrow> Returned (fst st)))"

section \<open>Notions used to state what the renderers write\<close>

text \<open>
  \<open>cells_changed W lo hi m m'\<close>: the arrays \<open>m\<close> and \<open>m'\<close> have the same length, and every
  cell in which they differ lies between \<open>lo\<close> and \<open>hi\<close> and holds a value of \<open>W\<close> in \<open>m'\<close>.
\<close>

definition cells_changed :: "byte set \<Rightarrow> int \<Rightarrow> int \<Rightarrow> byte list \<Rightarrow> byte list \<Rightarrow> bool" where
  "cells_changed W lo hi m m' \<longleftrightarrow>
     length m' = length m \<and>
     (\<forall>i. aget m' i = aget m i \<or> (lo \<le> i \<and> i \<le> hi \<and> aget m' i \<in> Some ` W))"

definition cmap_step :: "byte set \<Rightarrow> int \<Rightarrow> int \<Rightarrow> byte list option \<Rightarrow> byte list option \<Rightarrow> bool" where
  "cmap_step W lo hi c c' \<longleftrightarrow> rel_option (cells_changed W lo hi) c c'"

definition W_mono :: "byte set" where "W_mono = {0, 3, 4, 7}"

definition W_color :: "byte set" where "W_color = {0, 1, 2, 3, 4, 5, 6, 7}"

text \<open>The normalisation that \<^verbatim>\<open>generateColorMap\<close> applies to a cell, the values a line
  renderer can write, and the values left after normalisation.\<close>

definition norm_color :: "byte \<Rightarrow> byte" where
  "norm_color v = (if v = 4 then 0 else if v = 7 then 3 else v)"

definition S_final :: "bool \<Rightarrow> byte set" where
  "S_final asMono = (if asMono then {0, 3} else {0, 1, 2, 3, 5, 6})"

definition W_render :: "bool \<Rightarrow> byte set" where
  "W_render asMono = (if asMono then W_mono else W_color)"

text \<open>The bytewise exclusive or of two buffers of the same length.\<close>

definition xor_buf :: "byte list \<Rightarrow> byte list \<Rightarrow> byte list" where
  "xor_buf b d = map2 (XOR) b d"

section \<open>Picture: the undo context\<close>

text \<open>
  The class \<^verbatim>\<open>UndoItem\<close>. Its constructor takes any value and throws unless the value is a
  \<^verbatim>\<open>Uint8Array\<close>, of which it keeps a copy.
\<close>

datatype js_buffer = Uint8Array "byte list" | OtherValue

record undo_item =
  beforeBuffer :: "byte list option"
  comment :: string
  isProcessed :: bool
  undoBuffer :: "byte list option"
  redoBuffer :: "byte list option"
  diffList :: "int list"

definition new_UndoItem :: "js_buffer \<Rightarrow> string \<Rightarrow> error + undo_item" where
  "new_UndoItem buffer cmt =
     (case buffer of
        OtherValue \<Rightarrow> Inl BadBefore
      | Uint8Array bytes \<Rightarrow>
          Inr \<lparr>beforeBuffer = Some bytes, comment = cmt, isProcessed = False,
               undoBuffer = None, redoBuffer = None, diffList = []\<rparr>)"

text \<open>
  The fields of \<^verbatim>\<open>Picture\<close> that the undo code uses. \<open>rawData\<close> is
  \<^verbatim>\<open>this.rawImage.rawData\<close>, which is a \<^verbatim>\<open>Uint8Array\<close>: the constructor of
  \<^verbatim>\<open>StdHiRes\<close> and the undo and redo actions assign nothing else to it.
\<close>

record picture =
  rawData :: "byte list"
  undoList :: "undo_item list"
  undoIndex :: nat
  saveIndex :: nat
  undoContext :: "undo_item option"

definition openUndoContext :: "picture \<Rightarrow> string \<Rightarrow> picture outcome" where
  "openUndoContext p cmt =
     (if undoContext p \<noteq> None then Threw UndoContextAlreadyOpen p
      else (case new_UndoItem (Uint8Array (rawData p)) cmt of
              Inl e \<Rightarrow> Threw e p
            | Inr item \<Rightarrow> Returned (p\<lparr>undoContext := Some item\<rparr>)))"

definition isUndoContextOpen :: "picture \<Rightarrow> bool" where
  "isUndoContextOpen p \<longleftrightarrow> undoContext p \<noteq> None"

section \<open>Picture: flood fill\<close>

text \<open>
  \<^verbatim>\<open>doFlood\<close> works on the colour map, a \<^verbatim>\<open>Uint8Array\<close> with one cell for each pixel, and on
  a stack of coordinates. Its \<^verbatim>\<open>while\<close> loop runs as long as the stack holds an entry, so
  the loop is a partial function: \<^verbatim>\<open>None\<close> stands for a loop that does not end. The last
  element pushed is the head of the list. The width and the height of a picture are those
  of its pixel image, which the constructor makes with 280 columns and 192 rows. The
  function returns nothing; the model returns the colour map that it leaves.
\<close>

partial_function (option) flood_loop ::
  "int \<Rightarrow> int \<Rightarrow> byte option \<Rightarrow> int \<Rightarrow> byte list \<Rightarrow> (int \<times> int) list \<Rightarrow> byte list option" where
  "flood_loop width height repColor newColor colorMap toVisit =
     (case toVisit of
        [] \<Rightarrow> Some colorMap
      | (nx, ny) # rest \<Rightarrow>
          let colorMap' = aset colorMap (ny * width + nx) newColor;
              toVisit1 = (if nx > 0 \<and> aget colorMap' (ny * width + nx - 1) = repColor
                          then (nx - 1, ny) # rest else rest);
              toVisit2 = (if nx < width - 1 \<and> aget colorMap' (ny * width + nx + 1) = repColor
                          then (nx + 1, ny) # toVisit1 else toVisit1);
              toVisit3 = (if ny > 0 \<and> aget colorMap' ((ny - 1) * width + nx) = repColor
                          then (nx, ny - 1) # toVisit2 else toVisit2);
              toVisit4 = (if ny < height - 1 \<and> aget colorMap' ((ny + 1) * width + nx) = repColor
                          then (nx, ny + 1) # toVisit3 else toVisit3)
          in flood_loop width height repColor newColor colorMap' toVisit4)"

definition doFlood :: "int \<Rightarrow> int \<Rightarrow> int \<Rightarrow> byte list \<Rightarrow> byte list option" where
  "doFlood xc yc newColor colorMap =
     (let width = NUM_COLS;
          height = NUM_ROWS;
          repColor = aget colorMap (yc * width + xc)
      in flood_loop width height repColor newColor colorMap [(xc, yc)])"

text \<open>
  The cells of the screen, the index of a cell in the colour map, the four neighbours of a
  cell, and the 4-connected component of the start cell among the cells of the screen
  that hold the value of the start cell. These are used to state what the fill does.
\<close>

definition adjacent :: "int \<times> int \<Rightarrow> int \<times> int \<Rightarrow> bool" where
  "adjacent c n \<longleftrightarrow>
     (fst n = fst c \<and> (snd n = snd c - 1 \<or> snd n = snd c + 1)) \<or>
     (snd n = snd c \<and> (fst n = fst c - 1 \<or> fst n = fst c + 1))"

definition on_screen :: "int \<times> int \<Rightarrow> bool" where
  "on_screen c \<longleftrightarrow> 0 \<le> fst c \<and> fst c < NUM_COLS \<and> 0 \<le> snd c \<and> snd c < NUM_ROWS"

definition cell_index :: "int \<times> int \<Rightarrow> int" where
  "cell_index c = snd c * NUM_COLS + fst c"

inductive_set region :: "byte list \<Rightarrow> int \<times> int \<Rightarrow> (int \<times> int) set"
  for colorMap :: "byte list" and start :: "int \<times> int" where
  start: "start \<in> region colorMap start"
| step: "c \<in> region colorMap start \<Longrightarrow> adjacent c n \<Longrightarrow> on_screen n \<Longrightarrow>
         aget colorMap (cell_index n) = aget colorMap (cell_index start) \<Longrightarrow>
         n \<in> region colorMap start"

text \<open>
  One conditional push of the loop body and the four of them together, as they appear
  after the loop body has been unfolded; used only in proofs.
\<close>

definition push_if ::
  "bool \<Rightarrow> byte option \<Rightarrow> byte list \<Rightarrow> int \<times> int \<Rightarrow> (int \<times> int) list \<Rightarrow> (int \<times> int) list" where
  "push_if b repColor colorMap n toVisit =
     (if b \<and> aget colorMap (cell_index n) = repColor then n # toVisit else toVisit)"

definition flood_push ::
  "byte option \<Rightarrow> byte list \<Rightarrow> int \<Rightarrow> int \<Rightarrow> (int \<times> int) list \<Rightarrow> (int \<times> int) list" where
  "flood_push repColor colorMap' nx ny rest =
     push_if (ny < NUM_ROWS - 1) repColor colorMap' (nx, ny + 1)
       (push_if (ny > 0) repColor colorMap' (nx, ny - 1)
         (push_if (nx < NUM_COLS - 1) repColor colorMap' (nx + 1, ny)
           (push_if (nx > 0) repColor colorMap' (nx - 1, ny) rest)))"

text \<open>
  The two quantities that decrease in the loop: the number of cells that still hold the
  value to be replaced, and the number of stack entries whose cell is already replaced.
\<close>

definition unmarked_count :: "byte option \<Rightarrow> byte list \<Rightarrow> nat" where
  "unmarked_count repColor colorMap = length (filter (\<lambda>v. Some v = repColor) colorMap)"

definition stale_count :: "byte option \<Rightarrow> byte list \<Rightarrow> (int \<times> int) list \<Rightarrow> nat" where
  "stale_count repColor colorMap toVisit =
     length (filter (\<lambda>c. aget colorMap (cell_index c) \<noteq> repColor) toVisit)"

text \<open>
  The loop invariant, for the original map, the start cell and the marker: every cell of
  the screen is either marked and in the component or unchanged, the stack holds cells of
  the component only, every neighbour in the component of a marked cell is marked or on
  the stack, and so is the start cell.
\<close>

definition flood_inv ::
  "byte list \<Rightarrow> int \<times> int \<Rightarrow> byte \<Rightarrow> byte list \<Rightarrow> (int \<times> int) list \<Rightarrow> bool" where
  "flood_inv m0 start mk m st \<longleftrightarrow>
     length m = length m0 \<and>
     (\<forall>c. on_screen c \<longrightarrow>
        (aget m (cell_index c) = Some mk \<and> c \<in> region m0 start) \<or>
        aget m (cell_index c) = aget m0 (cell_index c)) \<and>
     set st \<subseteq> region m0 start \<and>
     (\<forall>c n. on_screen c \<and> aget m (cell_index c) = Some mk \<and> adjacent c n \<and> on_screen n \<and>
            aget m0 (cell_index n) = aget m0 (cell_index start) \<longrightarrow>
        aget m (cell_index n) = Some mk \<or> n \<in> set st) \<and>
     (aget m (cell_index start) = Some mk \<or> start \<in> set st)"

section \<open>Basic facts\<close>

lemma js_trunc_div_nonneg: "0 \<le> a \<Longrightarrow> 0 < b \<Longrightarrow> js_trunc_div a b = a div b"
  by (simp add: js_trunc_div_def)

lemma js_rem_nonneg: "0 \<le> a \<Longrightarrow> 0 < b \<Longrightarrow> js_rem a b = a mod b"
  by (simp add: js_rem_def js_trunc_div_nonneg minus_mult_div_eq_mod)

lemma js_shl_small: "0 \<le> n \<Longrightarrow> n < 32 \<Longrightarrow> js_shl a n = push_bit (nat n) a"
  by (simp add: js_shl_def)

lemma js_shr_small: "0 \<le> n \<Longrightarrow> n < 32 \<Longrightarrow> js_shr a n = drop_bit (nat n) a"
  by (simp add: js_shr_def)

lemma length_aset: "length (aset a i v) = length a"
  by (simp add: aset_def)

lemma aget_aset_same:
  "aget (aset a i v) i = (if 0 \<le> i \<and> i < int (length a) then Some (word_of_int v) else None)"
  by (auto simp: aget_def aset_def nat_less_iff)

lemma aget_aset_other: "j \<noteq> i \<Longrightarrow> aget (aset a i v) j = aget a j"
  by (auto simp: aget_def aset_def nat_eq_iff)

lemma aset_same_value:
  "(word_of_int v :: byte) = word_of_int (toInt32 (aget a i)) \<Longrightarrow> aset a i v = a"
  by (auto simp: aset_def aget_def nat_less_iff)

lemma aset_out_of_range: "\<not> (0 \<le> i \<and> i < int (length a)) \<Longrightarrow> aset a i v = a"
  by (auto simp: aset_def)

lemma aget_aset:
  "aget (aset a i v) j =
     (if j = i \<and> 0 \<le> i \<and> i < int (length a) then Some (word_of_int v) else aget a j)"
proof (cases "j = i")
  case False
  then show ?thesis by (simp add: aget_aset_other)
next
  case same: True
  show ?thesis
  proof (cases "0 \<le> i \<and> i < int (length a)")
    case True
    with same show ?thesis by (simp add: aget_aset_same)
  next
    case False
    with same show ?thesis by (auto simp: aset_out_of_range)
  qed
qed

lemma masked_overwrite_bits:
  "bit (uint (word_of_int (((p XOR uint c) AND m) XOR uint c) :: byte)) n \<noteq> bit (uint (c::byte)) n
    \<Longrightarrow> bit m n"
  by (auto simp: bit_simps dest: bit_imp_le_length)

lemma bit_0x80: "bit (0x80::int) n \<longleftrightarrow> n = 7"
proof -
  have "(0x80::int) = push_bit 7 1" by simp
  then show ?thesis by (simp only: bit_push_bit_iff bit_1_iff) auto
qed

lemma bit_pixmask: "bit (0x80 OR 2 ^ k :: int) n \<longleftrightarrow> n = 7 \<or> n = k"
  by (auto simp: bit_or_iff bit_0x80 bit_exp_iff)

lemma rowToOffset_table:
  "\<forall>r\<in>set [0..191]. case rowToOffset r of Inl e \<Rightarrow> False
       | Inr off \<Rightarrow> 0 \<le> off \<and> off + 39 \<le> 8183 \<and> offsetToRow off = r"
  by code_simp

lemma rowToOffset_valid:
  assumes "0 \<le> r" "r \<le> 191"
  obtains off where "rowToOffset r = Inr off" "0 \<le> off" "off + 39 \<le> 8183" "offsetToRow off = r"
proof -
  from assms have "r \<in> set [0..191]" by simp
  with rowToOffset_table
  have "case rowToOffset r of Inl e \<Rightarrow> False
       | Inr off \<Rightarrow> 0 \<le> off \<and> off + 39 \<le> 8183 \<and> offsetToRow off = r"
    by blast
  then show thesis
    by (cases "rowToOffset r") (auto intro: that)
qed

section \<open>Claims about rowToOffset\<close>

text \<open>
  C4. \<^verbatim>\<open>rowToOffset\<close> is injective on the rows 0..191, and for each of these rows it
  returns an offset between 0 and 8191.
\<close>

theorem rowToOffset_injective_in_range:
  assumes "0 \<le> r1" "r1 \<le> 191" "0 \<le> r2" "r2 \<le> 191"
  shows "(\<exists>off. rowToOffset r1 = Inr off \<and> 0 \<le> off \<and> off \<le> 8191) \<and>
         (rowToOffset r1 = rowToOffset r2 \<longrightarrow> r1 = r2)"
proof -
  obtain o1 where o1: "rowToOffset r1 = Inr o1" "0 \<le> o1" "o1 + 39 \<le> 8183" "offsetToRow o1 = r1"
    using assms(1,2) by (rule rowToOffset_valid)
  obtain o2 where o2: "rowToOffset r2 = Inr o2" "offsetToRow o2 = r2"
    using assms(3,4) by (rule rowToOffset_valid)
  have "\<exists>off. rowToOffset r1 = Inr off \<and> 0 \<le> off \<and> off \<le> 8191"
    using o1 by auto
  moreover have "rowToOffset r1 = rowToOffset r2 \<longrightarrow> r1 = r2"
    using o1 o2 by auto
  ultimately show ?thesis by blast
qed

theorem rowToOffset_injective_in_range_witness:
  "(\<exists>off. rowToOffset 191 = Inr off \<and> 0 \<le> off \<and> off \<le> 8191) \<and>
   rowToOffset 191 \<noteq> rowToOffset 64"
  using rowToOffset_injective_in_range [of 191 64] by simp

lemma setPixel_returns:
  assumes "0 \<le> x" "x < 280" "0 \<le> y" "y < 192" "length (pat_bytes pat) = 8"
    and "rowToOffset y = Inr rowOffset"
  shows "setPixel rawBytes x y pat =
     Returned (aset rawBytes (rowOffset + x div 7)
        (((toInt32 (aget (pat_bytes pat) (((x div 7) AND 0x03) OR push_bit 2 (y AND 0x01)))
             XOR toInt32 (aget rawBytes (rowOffset + x div 7)))
           AND (if checkMsbPattern pat < 0 then 0x80 OR push_bit (nat (x mod 7)) 1 else 0x80))
         XOR toInt32 (aget rawBytes (rowOffset + x div 7))))"
proof -
  have m: "0 \<le> x mod 7" "x mod 7 < 32" using assms(1) by auto
  show ?thesis
    using assms
    by (simp add: setPixel_def Let_def js_trunc_div_nonneg js_rem_nonneg js_shl_small [OF m])
qed

section \<open>Claims about setPixel\<close>

text \<open>
  C3. For every valid coordinate (x in 0..279, y in 0..191), every 8-byte pattern and every
  buffer, \<^verbatim>\<open>setPixel\<close> returns, and calling it a second time with the same arguments
  leaves the buffer as the first call left it: it is idempotent, not a toggle.
\<close>

theorem setPixel_idempotent:
  assumes "0 \<le> x" "x \<le> 279" "0 \<le> y" "y \<le> 191" "length (pat_bytes pat) = 8"
  shows "\<exists>b1. setPixel rawBytes x y pat = Returned b1 \<and> setPixel b1 x y pat = Returned b1"
proof -
  obtain rowOffset where ro: "rowToOffset y = Inr rowOffset"
    using assms(3,4) by (rule rowToOffset_valid)
  let ?i = "rowOffset + x div 7"
  let ?p = "toInt32 (aget (pat_bytes pat) (((x div 7) AND 0x03) OR push_bit 2 (y AND 0x01)))"
  let ?m = "if checkMsbPattern pat < 0 then 0x80 OR push_bit (nat (x mod 7)) (1::int) else 0x80"
  let ?nv = "\<lambda>b. ((?p XOR toInt32 (aget b ?i)) AND ?m) XOR toInt32 (aget b ?i)"
  let ?b1 = "aset rawBytes ?i (?nv rawBytes)"
  have s1: "setPixel rawBytes x y pat = Returned ?b1"
    using assms ro by (intro setPixel_returns) auto
  have s2: "setPixel ?b1 x y pat = Returned (aset ?b1 ?i (?nv ?b1))"
    using assms ro by (intro setPixel_returns) auto
  have "aset ?b1 ?i (?nv ?b1) = ?b1"
  proof (cases "0 \<le> ?i \<and> ?i < int (length rawBytes)")
    case True
    then have g: "aget ?b1 ?i = Some (word_of_int (?nv rawBytes))"
      by (simp add: aget_aset_same)
    have "(word_of_int (?nv ?b1) :: byte) = word_of_int (toInt32 (aget ?b1 ?i))"
      unfolding g toInt32.simps
      by (rule bit_word_eqI) (auto simp: bit_simps)
    then show ?thesis by (rule aset_same_value)
  next
    case False
    then show ?thesis by (intro aset_out_of_range) (simp add: length_aset)
  qed
  with s1 s2 show ?thesis by simp
qed


theorem setPixel_idempotent_witness:
  "(0::int) \<le> 3 \<and> (3::int) \<le> 279 \<and> (0::int) \<le> 5 \<and> (5::int) \<le> 191 \<and>
   length (pat_bytes (Opaque (replicate 8 0x7f))) = 8 \<and>
   (\<exists>b1. setPixel (replicate 8184 0) 3 5 (Opaque (replicate 8 0x7f)) = Returned b1 \<and>
         setPixel b1 3 5 (Opaque (replicate 8 0x7f)) = Returned b1)"
  using setPixel_idempotent [of 3 5 "Opaque (replicate 8 0x7f)" "replicate 8184 0"] by simp

text \<open>
  C7. For every valid coordinate, \<^verbatim>\<open>setPixel\<close> changes at most the byte at offset
  \<^verbatim>\<open>rowToOffset(y) + floor(x / 7)\<close>. In that byte, a bit that changes is bit 7 (the mode
  bit) or, only when the pattern is neither of the two transparent patterns, the pixel's own
  bit \<^verbatim>\<open>x % 7\<close>. So a transparent pattern leaves the seven pixel bits as they were.
\<close>

theorem setPixel_frame:
  assumes "0 \<le> x" "x \<le> 279" "0 \<le> y" "y \<le> 191" "length (pat_bytes pat) = 8"
  shows "\<exists>rowOffset b1.
     rowToOffset y = Inr rowOffset \<and> setPixel rawBytes x y pat = Returned b1 \<and>
     length b1 = length rawBytes \<and>
     (\<forall>i. i \<noteq> rowOffset + x div 7 \<longrightarrow> aget b1 i = aget rawBytes i) \<and>
     (\<forall>n. bit (toInt32 (aget b1 (rowOffset + x div 7))) n
            \<noteq> bit (toInt32 (aget rawBytes (rowOffset + x div 7))) n \<longrightarrow>
          n = 7 \<or> (pat \<noteq> HI_BIT_CLEAR \<and> pat \<noteq> HI_BIT_SET \<and> n = nat (x mod 7)))"
proof -
  obtain rowOffset where ro: "rowToOffset y = Inr rowOffset"
    using assms(3,4) by (rule rowToOffset_valid)
  let ?i = "rowOffset + x div 7"
  let ?p = "toInt32 (aget (pat_bytes pat) (((x div 7) AND 0x03) OR push_bit 2 (y AND 0x01)))"
  let ?m = "if checkMsbPattern pat < 0 then 0x80 OR push_bit (nat (x mod 7)) (1::int) else 0x80"
  let ?nv = "((?p XOR toInt32 (aget rawBytes ?i)) AND ?m) XOR toInt32 (aget rawBytes ?i)"
  let ?b1 = "aset rawBytes ?i ?nv"
  have s1: "setPixel rawBytes x y pat = Returned ?b1"
    using assms ro by (intro setPixel_returns) auto
  have len: "length ?b1 = length rawBytes" by (rule length_aset)
  have other: "\<forall>i. i \<noteq> ?i \<longrightarrow> aget ?b1 i = aget rawBytes i"
    by (simp add: aget_aset_other)
  have mask: "bit ?m n \<Longrightarrow> n = 7 \<or> (pat \<noteq> HI_BIT_CLEAR \<and> pat \<noteq> HI_BIT_SET \<and> n = nat (x mod 7))" for n
    by (cases pat) (auto simp: bit_pixmask bit_0x80)
  have bits: "bit (toInt32 (aget ?b1 ?i)) n \<noteq> bit (toInt32 (aget rawBytes ?i)) n \<Longrightarrow> bit ?m n" for n
  proof (cases "0 \<le> ?i \<and> ?i < int (length rawBytes)")
    case True
    assume d: "bit (toInt32 (aget ?b1 ?i)) n \<noteq> bit (toInt32 (aget rawBytes ?i)) n"
    from True obtain c where c: "aget rawBytes ?i = Some c" by (auto simp: aget_def)
    from True have g: "aget ?b1 ?i = Some (word_of_int ?nv)" by (simp add: aget_aset_same)
    from d show ?thesis
      unfolding g unfolding c toInt32.simps by (rule masked_overwrite_bits)
  next
    case False
    assume d: "bit (toInt32 (aget ?b1 ?i)) n \<noteq> bit (toInt32 (aget rawBytes ?i)) n"
    from False have "aget ?b1 ?i = None" "aget rawBytes ?i = None"
      by (auto simp: aget_def length_aset)
    with d show ?thesis by simp
  qed
  from ro s1 len other mask bits show ?thesis by blast
qed


theorem setPixel_frame_witness:
  "(0::int) \<le> 3 \<and> (3::int) \<le> 279 \<and> (0::int) \<le> 5 \<and> (5::int) \<le> 191 \<and>
   length (pat_bytes HI_BIT_SET) = 8 \<and>
   (\<exists>rowOffset b1.
     rowToOffset 5 = Inr rowOffset \<and>
     setPixel (replicate 8184 0x7f) 3 5 HI_BIT_SET = Returned b1 \<and>
     length b1 = length (replicate 8184 (0x7f::byte)) \<and>
     (\<forall>i. i \<noteq> rowOffset + 3 div 7 \<longrightarrow> aget b1 i = aget (replicate 8184 0x7f) i) \<and>
     (\<forall>n. bit (toInt32 (aget b1 (rowOffset + 3 div 7))) n
            \<noteq> bit (toInt32 (aget (replicate 8184 0x7f) (rowOffset + 3 div 7))) n \<longrightarrow>
          n = 7 \<or> (HI_BIT_SET \<noteq> HI_BIT_CLEAR \<and> HI_BIT_SET \<noteq> HI_BIT_SET \<and> n = nat (3 mod 7))))"
  using setPixel_frame [of 3 5 HI_BIT_SET "replicate 8184 0x7f"] by simp

section \<open>Claims about the undo context\<close>

text \<open>
  C8. At most one undo context is open per picture. \<^verbatim>\<open>openUndoContext\<close> called while a
  context is open throws and leaves the undo state (open context, undo list, undo index) as
  it was; called while none is open it opens one, and then a second call throws.
\<close>

theorem openUndoContext_twice_throws:
  "(undoContext p \<noteq> None \<longrightarrow> openUndoContext p cmt = Threw UndoContextAlreadyOpen p) \<and>
   (undoContext p = None \<longrightarrow>
      (\<exists>p1. openUndoContext p cmt = Returned p1 \<and> isUndoContextOpen p1 \<and>
            undoList p1 = undoList p \<and> undoIndex p1 = undoIndex p \<and>
            openUndoContext p1 cmt2 = Threw UndoContextAlreadyOpen p1))"
  by (simp add: openUndoContext_def isUndoContextOpen_def new_UndoItem_def)

theorem openUndoContext_twice_throws_witness:
  "undoContext \<lparr>rawData = replicate 8184 0, undoList = [], undoIndex = 0, saveIndex = 0,
      undoContext = None\<rparr> = None \<and>
   (\<exists>p1. openUndoContext \<lparr>rawData = replicate 8184 0, undoList = [], undoIndex = 0,
             saveIndex = 0, undoContext = None\<rparr> ''line'' = Returned p1 \<and>
         isUndoContextOpen p1 \<and> undoContext p1 \<noteq> None \<and>
         undoList p1 = [] \<and> undoIndex p1 = 0 \<and>
         openUndoContext p1 ''rect'' = Threw UndoContextAlreadyOpen p1)"
  using openUndoContext_twice_throws [of "\<lparr>rawData = replicate 8184 0, undoList = [],
      undoIndex = 0, saveIndex = 0, undoContext = None\<rparr>" "''line''" "''rect''"]
  by (auto simp: isUndoContextOpen_def)

section \<open>What the line renderers write\<close>


lemma cells_changed_refl: "cells_changed W lo hi m m"
  by (simp add: cells_changed_def)

lemma cells_changed_trans:
  assumes "cells_changed W lo1 hi1 m m1" "cells_changed W lo2 hi2 m1 m2"
    and "lo \<le> lo1" "lo \<le> lo2" "hi1 \<le> hi" "hi2 \<le> hi"
  shows "cells_changed W lo hi m m2"
  unfolding cells_changed_def
proof (intro conjI allI)
  show "length m2 = length m" using assms(1,2) by (simp add: cells_changed_def)
  fix i
  from assms(2) have a: "aget m2 i = aget m1 i \<or> (lo2 \<le> i \<and> i \<le> hi2 \<and> aget m2 i \<in> Some ` W)"
    by (simp add: cells_changed_def)
  from assms(1) have b: "aget m1 i = aget m i \<or> (lo1 \<le> i \<and> i \<le> hi1 \<and> aget m1 i \<in> Some ` W)"
    by (simp add: cells_changed_def)
  from a b assms(3-6)
  show "aget m2 i = aget m i \<or> (lo \<le> i \<and> i \<le> hi \<and> aget m2 i \<in> Some ` W)"
    by (metis order_trans)
qed

lemma cells_changed_aset:
  assumes "word_of_int v \<in> W"
  shows "cells_changed W k k m (aset m k v)"
  unfolding cells_changed_def
proof (intro conjI allI)
  show "length (aset m k v) = length m" by (rule length_aset)
  fix i
  show "aget (aset m k v) i = aget m i \<or> (k \<le> i \<and> i \<le> k \<and> aget (aset m k v) i \<in> Some ` W)"
  proof (cases "i = k")
    case True
    show ?thesis
    proof (cases "0 \<le> k \<and> k < int (length m)")
      case True
      with \<open>i = k\<close> assms show ?thesis by (simp add: aget_aset_same)
    next
      case False
      with \<open>i = k\<close> show ?thesis by (simp add: aset_out_of_range)
    qed
  next
    case False
    then show ?thesis by (simp add: aget_aset_other)
  qed
qed

lemma cmap_step_refl: "cmap_step W lo hi c c"
  by (cases c) (simp_all add: cmap_step_def cells_changed_refl)

lemma cmap_step_trans:
  assumes "cmap_step W lo1 hi1 c c1" "cmap_step W lo2 hi2 c1 c2"
    and "lo \<le> lo1" "lo \<le> lo2" "hi1 \<le> hi" "hi2 \<le> hi"
  shows "cmap_step W lo hi c c2"
  using assms
  by (cases c; cases c1; cases c2) (auto simp: cmap_step_def intro: cells_changed_trans)

lemma cmap_step_aset:
  "word_of_int v \<in> W \<Longrightarrow> cmap_step W k k c (map_option (\<lambda>m. aset m k v) c)"
  by (cases c) (simp_all add: cmap_step_def cells_changed_aset)

lemma aget_colorToRGBA: "0 \<le> index \<Longrightarrow> index < 8 \<Longrightarrow> \<exists>c. aget colorToRGBA index = Some c"
  by (simp add: aget_def colorToRGBA_def)

lemma emit_index_returns:
  assumes "0 \<le> index" "index < 8"
  shows "\<exists>r'. emit_index (r, c) row col index
            = Returned (r', map_option (\<lambda>m. aset m (row * NUM_COLS + col) index) c) \<and>
          (r' = None \<longleftrightarrow> r = None)"
proof -
  obtain k where k: "aget colorToRGBA index = Some k"
    using aget_colorToRGBA [OF assms] by blast
  show ?thesis
    by (cases r) (simp_all add: emit_index_def k setRGBAColor_def Let_def)
qed

lemma and_single_bit: "(a::int) AND 2 ^ n = (if bit a n then 2 ^ n else 0)"
  by (rule bit_eqI) (auto simp: bit_simps)

lemma highAdj_cases: "drop_bit 5 ((v::int) AND 0x80) = 0 \<or> drop_bit 5 (v AND 0x80) = 4"
proof -
  have "v AND 0x80 = (if bit v 7 then 2 ^ 7 else 0)"
    using and_single_bit [of v 7] by simp
  then show ?thesis by (simp split: if_splits)
qed

lemma mono_index: "(((bv::int) AND 0x01) OR push_bit 1 bv) AND 0x03 = (if odd bv then 3 else 0)"
proof -
  have 3: "(3::int) = mask 2" by (simp add: mask_eq_exp_minus_1)
  have "((bv AND 1) OR push_bit 1 bv) AND mask 2 = (if odd bv then mask 2 else 0)"
    by (rule bit_eqI) (auto simp: bit_simps bit_0 less_2_cases_iff bit_Suc)
  then show ?thesis by (simp add: 3)
qed



lemma emit_index_step:
  assumes "0 \<le> index" "index < 8" "word_of_int index \<in> W"
  shows "\<exists>cv'. emit_index cv row col index = Returned cv' \<and>
          (fst cv' = None \<longleftrightarrow> fst cv = None) \<and>
          cmap_step W (row * NUM_COLS + col) (row * NUM_COLS + col) (snd cv) (snd cv')"
proof -
  obtain r c where cv: "cv = (r, c)" by (cases cv)
  from emit_index_returns [OF assms(1,2), of r c row col]
  obtain r' where "emit_index (r, c) row col index
       = Returned (r', map_option (\<lambda>m. aset m (row * NUM_COLS + col) index) c)"
      "r' = None \<longleftrightarrow> r = None"
    by blast
  with cv assms(3) show ?thesis by (simp add: cmap_step_aset)
qed

lemma mono_index_value:
  assumes "highAdj = 0 \<or> highAdj = 4"
  shows "0 \<le> ((((bv::int) AND 0x01) OR push_bit 1 bv) AND 0x03) OR highAdj"
    and "((((bv::int) AND 0x01) OR push_bit 1 bv) AND 0x03) OR highAdj < 8"
    and "(word_of_int (((((bv::int) AND 0x01) OR push_bit 1 bv) AND 0x03) OR highAdj) :: byte) \<in> W_mono"
  using assms unfolding mono_index by (auto simp: W_mono_def)

lemma mono_for_step:
  assumes "highAdj = 0 \<or> highAdj = 4"
  shows "\<exists>cv'. mono_for row byteCol highAdj loopStop curBit byteVal cv = Returned cv' \<and>
           (fst cv' = None \<longleftrightarrow> fst cv = None) \<and>
           cmap_step W_mono (row * NUM_COLS + byteCol * 7 + curBit)
              (row * NUM_COLS + byteCol * 7 + loopStop) (snd cv) (snd cv')"
  using assms
proof (induction row byteCol highAdj loopStop curBit byteVal cv rule: mono_for.induct)
  case (1 row byteCol highAdj loopStop curBit byteVal cv)
  show ?case
  proof (cases "curBit \<le> loopStop")
    case False
    then show ?thesis
      by (subst mono_for.simps) (simp add: cmap_step_refl)
  next
    case True
    let ?index = "(((byteVal AND 0x01) OR push_bit 1 byteVal) AND 0x03) OR highAdj"
    note iv = mono_index_value [OF "1.prems", of byteVal]
    obtain cv1 where e: "emit_index cv row (byteCol * 7 + curBit) ?index = Returned cv1"
      and r1: "fst cv1 = None \<longleftrightarrow> fst cv = None"
      and s1: "cmap_step W_mono (row * NUM_COLS + (byteCol * 7 + curBit))
                 (row * NUM_COLS + (byteCol * 7 + curBit)) (snd cv) (snd cv1)"
      using emit_index_step [OF iv, of cv row "byteCol * 7 + curBit"] by auto
    from "1.IH" [OF True refl e "1.prems"]
    obtain cv2 where m2: "mono_for row byteCol highAdj loopStop (curBit + 1) (drop_bit 1 byteVal) cv1
          = Returned cv2"
      and r2: "fst cv2 = None \<longleftrightarrow> fst cv1 = None"
      and s2: "cmap_step W_mono (row * NUM_COLS + byteCol * 7 + (curBit + 1))
                 (row * NUM_COLS + byteCol * 7 + loopStop) (snd cv1) (snd cv2)"
      by auto
    have "mono_for row byteCol highAdj loopStop curBit byteVal cv = Returned cv2"
      using True e m2 by (subst mono_for.simps) (simp add: Let_def)
    moreover have "cmap_step W_mono (row * NUM_COLS + byteCol * 7 + curBit)
              (row * NUM_COLS + byteCol * 7 + loopStop) (snd cv) (snd cv2)"
      using s1 s2 by (rule cmap_step_trans) (use True in auto)
    ultimately show ?thesis using r1 r2 by auto
  qed
qed


lemma mono_while_step:
  assumes "0 \<le> curBit" "curBit \<le> 6" "0 < width \<Longrightarrow> lastBit = (curBit + width - 1) mod 7"
  shows "\<exists>cv'. mono_while rawBytes row rowOffset lastBit byteCol curBit width cv = Returned cv' \<and>
           (fst cv' = None \<longleftrightarrow> fst cv = None) \<and>
           cmap_step W_mono (row * NUM_COLS + byteCol * 7 + curBit)
              (row * NUM_COLS + byteCol * 7 + curBit + width - 1) (snd cv) (snd cv')"
  using assms
proof (induction rawBytes row rowOffset lastBit byteCol curBit width cv rule: mono_while.induct)
  case (1 rawBytes row rowOffset lastBit byteCol curBit width cv)
  show ?case
  proof (cases "width > 0")
    case False
    then show ?thesis
      by (subst mono_while.simps) (simp add: cmap_step_refl)
  next
    case True
    define byteVal where "byteVal = js_shr (toInt32 (aget rawBytes (rowOffset + byteCol))) curBit"
    define highAdj where "highAdj = drop_bit 5 (byteVal AND 0x80)"
    define width' where "width' = width - (7 - curBit)"
    define loopStop where "loopStop = (if width' \<le> 0 then lastBit else 6)"
    have h: "highAdj = 0 \<or> highAdj = 4"
      unfolding highAdj_def by (rule highAdj_cases)
    obtain cv1 where m1: "mono_for row byteCol highAdj loopStop curBit byteVal cv = Returned cv1"
      and r1: "fst cv1 = None \<longleftrightarrow> fst cv = None"
      and s1: "cmap_step W_mono (row * NUM_COLS + byteCol * 7 + curBit)
                 (row * NUM_COLS + byteCol * 7 + loopStop) (snd cv) (snd cv1)"
      using mono_for_step [OF h, of row byteCol loopStop curBit byteVal cv] by auto
    have last: "lastBit = (curBit + width - 1) mod 7"
      using True "1.prems"(3) by simp
    have last': "0 < width' \<Longrightarrow> lastBit = (0 + width' - 1) mod 7"
    proof -
      have "(curBit + width - 1) mod 7 = (curBit + width - 1 - 7) mod 7"
        by (metis minus_mod_self2)
      then show ?thesis by (simp add: last width'_def algebra_simps)
    qed
    have stop: "loopStop \<le> curBit + width - 1"
    proof (cases "width' \<le> 0")
      case True
      then have "0 \<le> curBit + width - 1" "curBit + width - 1 < 7"
        using \<open>width > 0\<close> "1.prems"(1) by (auto simp: width'_def)
      then have "(curBit + width - 1) mod 7 = curBit + width - 1" by simp
      with True last show ?thesis by (simp add: loopStop_def)
    next
      case False
      then show ?thesis by (simp add: loopStop_def width'_def)
    qed
    from "1.IH" [OF True byteVal_def highAdj_def width'_def loopStop_def m1 _ _ last']
    obtain cv2 where m2: "mono_while rawBytes row rowOffset lastBit (byteCol + 1) 0 width' cv1
          = Returned cv2"
      and r2: "fst cv2 = None \<longleftrightarrow> fst cv1 = None"
      and s2: "cmap_step W_mono (row * NUM_COLS + (byteCol + 1) * 7 + 0)
                 (row * NUM_COLS + (byteCol + 1) * 7 + 0 + width' - 1) (snd cv1) (snd cv2)"
      by auto
    have "mono_while rawBytes row rowOffset lastBit byteCol curBit width cv = Returned cv2"
      using True m1 m2
      by (subst mono_while.simps)
         (simp add: Let_def byteVal_def highAdj_def width'_def loopStop_def)
    moreover have "cmap_step W_mono (row * NUM_COLS + byteCol * 7 + curBit)
              (row * NUM_COLS + byteCol * 7 + curBit + width - 1) (snd cv) (snd cv2)"
      using s1 s2 by (rule cmap_step_trans) (use stop "1.prems"(1,2) in \<open>auto simp: width'_def\<close>)
    ultimately show ?thesis using r1 r2 by auto
  qed
qed

lemma renderLineAsMono_step:
  assumes "0 \<le> row" "row \<le> 191" "0 \<le> left" "0 < width"
  shows "\<exists>r' c'. renderLineAsMono rawBytes r row left width c = Returned (r', c') \<and>
           (r' = None \<longleftrightarrow> r = None) \<and>
           cmap_step W_mono (row * NUM_COLS + left) (row * NUM_COLS + left + width - 1) c c'"
proof -
  obtain rowOffset where ro: "rowToOffset row = Inr rowOffset"
    using assms(1,2) by (rule rowToOffset_valid)
  have l: "0 \<le> left mod 7" "left mod 7 \<le> 6" using assms(3) by auto
  have last: "0 < width \<Longrightarrow> (left + width - 1) mod 7 = (left mod 7 + width - 1) mod 7"
    by (metis (no_types, opaque_lifting) add_diff_eq mod_add_left_eq)
  from mono_while_step [OF l last, of rawBytes row rowOffset "left div 7" "(r, c)"]
  obtain cv' where w: "mono_while rawBytes row rowOffset ((left + width - 1) mod 7) (left div 7)
        (left mod 7) width (r, c) = Returned cv'"
    and r1: "fst cv' = None \<longleftrightarrow> r = None"
    and s1: "cmap_step W_mono (row * NUM_COLS + left div 7 * 7 + left mod 7)
         (row * NUM_COLS + left div 7 * 7 + left mod 7 + width - 1) c (snd cv')"
    by auto
  have "renderLineAsMono rawBytes r row left width c = Returned (fst cv', snd cv')"
    using assms ro w
    by (simp add: renderLineAsMono_def Let_def js_trunc_div_nonneg js_rem_nonneg)
  moreover have "row * NUM_COLS + left div 7 * 7 + left mod 7 = row * NUM_COLS + left"
    by simp
  ultimately show ?thesis using r1 s1 by (metis add.assoc div_mult_mod_eq)
qed


lemma bitsToColor_table:
  "\<forall>i\<in>set [0..15]. num_or_zero (aget bitsToColor i) \<in> {0, 1, 2, 3}"
  by (simp add: upto.simps aget_def bitsToColor_def)

lemma bitsToColor_range: "num_or_zero (aget bitsToColor i) \<in> {0, 1, 2, 3}"
proof (cases "0 \<le> i \<and> i \<le> 15")
  case True
  then have "i \<in> set [0..15]" by simp
  with bitsToColor_table show ?thesis by blast
next
  case False
  then have "aget bitsToColor i = None" by (auto simp: aget_def bitsToColor_def)
  then show ?thesis by simp
qed

lemma color_index_value:
  assumes "highAdj = 0 \<or> highAdj = 4"
  shows "0 \<le> num_or_zero (aget bitsToColor i) OR highAdj"
    and "num_or_zero (aget bitsToColor i) OR highAdj < 8"
    and "(word_of_int (num_or_zero (aget bitsToColor i) OR highAdj) :: byte) \<in> W_color"
  using assms bitsToColor_range [of i] by (auto simp: W_color_def)

lemma color_for_step:
  assumes "highAdj = 0 \<or> highAdj = 4"
  shows "\<exists>st'. color_for row byteCol highAdj loopStop curBit byteVal st = Returned st' \<and>
           (fst (fst st') = None \<longleftrightarrow> fst (fst st) = None) \<and>
           cmap_step W_color (row * NUM_COLS + byteCol * 7 + curBit)
              (row * NUM_COLS + byteCol * 7 + loopStop) (snd (fst st)) (snd (fst st'))"
  using assms
proof (induction row byteCol highAdj loopStop curBit byteVal st rule: color_for.induct)
  case (1 row byteCol highAdj loopStop curBit byteVal cv prevBit oddAdj)
  show ?case
  proof (cases "curBit \<le> loopStop")
    case False
    then show ?thesis
      by (subst color_for.simps) (simp add: cmap_step_refl)
  next
    case True
    define bits where "bits = push_bit 2 prevBit OR push_bit 1 (byteVal AND 0x01)
                     OR drop_bit 1 (byteVal AND 0x02)"
    define colorIndex where "colorIndex = num_or_zero (aget bitsToColor (bits OR oddAdj)) OR highAdj"
    note iv = color_index_value [OF "1.prems", of "bits OR oddAdj", folded colorIndex_def]
    obtain cv1 where e: "emit_index cv row (byteCol * 7 + curBit) colorIndex = Returned cv1"
      and r1: "fst cv1 = None \<longleftrightarrow> fst cv = None"
      and s1: "cmap_step W_color (row * NUM_COLS + (byteCol * 7 + curBit))
                 (row * NUM_COLS + (byteCol * 7 + curBit)) (snd cv) (snd cv1)"
      using emit_index_step [OF iv, of cv row "byteCol * 7 + curBit"] by auto
    from "1.IH" [OF True bits_def colorIndex_def e "1.prems"]
    obtain st2 where m2: "color_for row byteCol highAdj loopStop (curBit + 1) (drop_bit 1 byteVal)
            (cv1, byteVal AND 0x01, 8 - oddAdj) = Returned st2"
      and r2: "fst (fst st2) = None \<longleftrightarrow> fst cv1 = None"
      and s2: "cmap_step W_color (row * NUM_COLS + byteCol * 7 + (curBit + 1))
                 (row * NUM_COLS + byteCol * 7 + loopStop) (snd cv1) (snd (fst st2))"
      by auto
    have "color_for row byteCol highAdj loopStop curBit byteVal (cv, prevBit, oddAdj) = Returned st2"
      using True e m2
      by (subst color_for.simps) (simp add: Let_def bits_def colorIndex_def)
    moreover have "cmap_step W_color (row * NUM_COLS + byteCol * 7 + curBit)
              (row * NUM_COLS + byteCol * 7 + loopStop) (snd cv) (snd (fst st2))"
      using s1 s2 by (rule cmap_step_trans) (use True in auto)
    ultimately show ?thesis using r1 r2 by auto
  qed
qed

lemma color_while_step:
  assumes "0 \<le> curBit" "curBit \<le> 6" "0 < width \<Longrightarrow> lastBit = (curBit + width - 1) mod 7"
  shows "\<exists>st'. color_while rawBytes row rowOffset lastBit byteCol curBit width st = Returned st' \<and>
           (fst (fst st') = None \<longleftrightarrow> fst (fst st) = None) \<and>
           cmap_step W_color (row * NUM_COLS + byteCol * 7 + curBit)
              (row * NUM_COLS + byteCol * 7 + curBit + width - 1) (snd (fst st)) (snd (fst st'))"
  using assms
proof (induction rawBytes row rowOffset lastBit byteCol curBit width st rule: color_while.induct)
  case (1 rawBytes row rowOffset lastBit byteCol curBit width st)
  show ?case
  proof (cases "width > 0")
    case False
    then show ?thesis
      by (subst color_while.simps) (simp add: cmap_step_refl)
  next
    case True
    define byteVal0 where "byteVal0 = toInt32 (aget rawBytes (rowOffset + byteCol))"
    define highAdj where "highAdj = drop_bit 5 (byteVal0 AND 0x80)"
    define byteVal1 where "byteVal1 = byteVal0 AND 0x7f"
    define byteVal2 where "byteVal2 = (if byteCol < NUM_COL_BYTES - 1
                        then byteVal1 OR
                          push_bit 7 (toInt32 (aget rawBytes (rowOffset + byteCol + 1)) AND 0x01)
                        else byteVal1)"
    define byteVal where "byteVal = js_shr byteVal2 curBit"
    define width' where "width' = width - (7 - curBit)"
    define loopStop where "loopStop = (if width' \<le> 0 then lastBit else 6)"
    have h: "highAdj = 0 \<or> highAdj = 4"
      unfolding highAdj_def by (rule highAdj_cases)
    obtain st1 where m1: "color_for row byteCol highAdj loopStop curBit byteVal st = Returned st1"
      and r1: "fst (fst st1) = None \<longleftrightarrow> fst (fst st) = None"
      and s1: "cmap_step W_color (row * NUM_COLS + byteCol * 7 + curBit)
                 (row * NUM_COLS + byteCol * 7 + loopStop) (snd (fst st)) (snd (fst st1))"
      using color_for_step [OF h, of row byteCol loopStop curBit byteVal st] by auto
    have last: "lastBit = (curBit + width - 1) mod 7"
      using True "1.prems"(3) by simp
    have last': "0 < width' \<Longrightarrow> lastBit = (0 + width' - 1) mod 7"
    proof -
      have "(curBit + width - 1) mod 7 = (curBit + width - 1 - 7) mod 7"
        by (metis minus_mod_self2)
      then show ?thesis by (simp add: last width'_def algebra_simps)
    qed
    have stop: "loopStop \<le> curBit + width - 1"
    proof (cases "width' \<le> 0")
      case True
      then have "0 \<le> curBit + width - 1" "curBit + width - 1 < 7"
        using \<open>width > 0\<close> "1.prems"(1) by (auto simp: width'_def)
      then have "(curBit + width - 1) mod 7 = curBit + width - 1" by simp
      with True last show ?thesis by (simp add: loopStop_def)
    next
      case False
      then show ?thesis by (simp add: loopStop_def width'_def)
    qed
    from "1.IH" [OF True byteVal0_def highAdj_def byteVal1_def byteVal2_def byteVal_def
                    width'_def loopStop_def m1 _ _ last']
    obtain st2 where m2: "color_while rawBytes row rowOffset lastBit (byteCol + 1) 0 width' st1
          = Returned st2"
      and r2: "fst (fst st2) = None \<longleftrightarrow> fst (fst st1) = None"
      and s2: "cmap_step W_color (row * NUM_COLS + (byteCol + 1) * 7 + 0)
                 (row * NUM_COLS + (byteCol + 1) * 7 + 0 + width' - 1)
                 (snd (fst st1)) (snd (fst st2))"
      by auto
    have "color_while rawBytes row rowOffset lastBit byteCol curBit width st = Returned st2"
    proof -
      note m1' = m1 [unfolded loopStop_def width'_def byteVal_def byteVal2_def byteVal1_def
                       highAdj_def byteVal0_def]
      note m2' = m2 [unfolded width'_def]
      show ?thesis
        by (subst color_while.simps) (simp only: True if_True Let_def m1' outcome.case m2')
    qed
    moreover have "cmap_step W_color (row * NUM_COLS + byteCol * 7 + curBit)
              (row * NUM_COLS + byteCol * 7 + curBit + width - 1) (snd (fst st)) (snd (fst st2))"
      using s1 s2 by (rule cmap_step_trans) (use stop "1.prems"(1,2) in \<open>auto simp: width'_def\<close>)
    ultimately show ?thesis using r1 r2 by auto
  qed
qed

lemma and_one_cases: "(v::int) AND 0x01 = 0 \<or> v AND 0x01 = 1"
  by (simp add: and_one_eq mod2_eq_if)

lemma renderLineAsColor_step:
  assumes "0 \<le> row" "row \<le> 191" "0 \<le> left" "0 < width"
  shows "\<exists>r' c'. renderLineAsColor rawBytes r row left width c = Returned (r', c') \<and>
           (r' = None \<longleftrightarrow> r = None) \<and>
           cmap_step W_color (row * NUM_COLS + left) (row * NUM_COLS + left + width - 1) c c'"
proof -
  obtain rowOffset where ro: "rowToOffset row = Inr rowOffset"
    using assms(1,2) by (rule rowToOffset_valid)
  define prevBit where "prevBit =
                (if left = 0 then 0
                 else if left mod 7 = 0
                   then drop_bit 6 (toInt32 (aget rawBytes (rowOffset + left div 7 - 1))) AND 0x01
                   else js_shr (toInt32 (aget rawBytes (rowOffset + left div 7))) (left mod 7 - 1)
                          AND 0x01)"
  have pb: "prevBit = 0 \<or> prevBit = 1"
    unfolding prevBit_def using and_one_cases by auto
  have l: "0 \<le> left mod 7" "left mod 7 \<le> 6" using assms(3) by auto
  have last: "0 < width \<Longrightarrow> (left + width - 1) mod 7 = (left mod 7 + width - 1) mod 7"
    by (metis (no_types, opaque_lifting) add_diff_eq mod_add_left_eq)
  from color_while_step [OF l last, of rawBytes row rowOffset "left div 7"
      "((r, c), prevBit, push_bit 3 (left AND 0x01))"]
  obtain st' where w: "color_while rawBytes row rowOffset ((left + width - 1) mod 7) (left div 7)
        (left mod 7) width ((r, c), prevBit, push_bit 3 (left AND 0x01)) = Returned st'"
    and r1: "fst (fst st') = None \<longleftrightarrow> r = None"
    and s1: "cmap_step W_color (row * NUM_COLS + left div 7 * 7 + left mod 7)
         (row * NUM_COLS + left div 7 * 7 + left mod 7 + width - 1) c (snd (fst st'))"
    by auto
  have "renderLineAsColor rawBytes r row left width c = Returned (fst (fst st'), snd (fst st'))"
    using assms ro w pb
    by (auto simp add: renderLineAsColor_def Let_def js_trunc_div_nonneg js_rem_nonneg
          prevBit_def)
  moreover have "row * NUM_COLS + left div 7 * 7 + left mod 7 = row * NUM_COLS + left"
    by simp
  ultimately show ?thesis using r1 s1 by (metis add.assoc div_mult_mod_eq)
qed


lemma render_rows_returns:
  assumes "0 \<le> row" "stop \<le> 192" "0 \<le> left" "0 < width"
  shows "\<exists>d'. render_rows rawBytes asMono left width row stop d = Returned d'"
  using assms
proof (induction rawBytes asMono left width row stop d rule: render_rows.induct)
  case (1 rawBytes asMono left width row stop rgbaData)
  show ?case
  proof (cases "row < stop")
    case False
    then show ?thesis by (subst render_rows.simps) simp
  next
    case True
    then have row: "0 \<le> row" "row \<le> 191" using "1.prems" by auto
    obtain r' c' where line:
      "(if asMono then renderLineAsMono rawBytes (Some rgbaData) row left width None
        else renderLineAsColor rawBytes (Some rgbaData) row left width None) = Returned (r', c')"
      using renderLineAsMono_step [OF row "1.prems"(3,4), of rawBytes "Some rgbaData" None]
        renderLineAsColor_step [OF row "1.prems"(3,4), of rawBytes "Some rgbaData" None]
      by (cases asMono) auto
    from "1.IH" [OF True line] "1.prems" row
    obtain d' where "render_rows rawBytes asMono left width (row + 1) stop
        (rgba_of (r', c') rgbaData) = Returned d'"
      by auto
    then show ?thesis
      using True line by (subst render_rows.simps) (simp only: if_True outcome.case, simp)
  qed
qed

lemma hasSignature_length: "hasSignature rawBytes \<Longrightarrow> 128 \<le> length rawBytes"
  by (auto simp: hasSignature_def SIGNATURE_def aget_def upt_rec split: if_splits)

lemma expanded_area:
  assumes "0 \<le> left" "0 < width"
  defines "newLeft \<equiv> (if left mod 7 = 0 then (if left = 0 then left else left - 1)
                       else left div 7 * 7)"
    and "incRight0 \<equiv> left + width - 1"
  shows "0 \<le> newLeft"
    and "0 < (if incRight0 mod 7 = 7 - 1
              then (if incRight0 < NUM_COLS - 1 then incRight0 + 1 else incRight0)
              else incRight0 div 7 * 7 + 7 - 1) - newLeft + 1"
proof -
  show "0 \<le> newLeft" using assms(1) by (auto simp: newLeft_def)
  have "left div 7 * 7 \<le> left" by presburger
  then have a: "newLeft \<le> left" unfolding newLeft_def by auto
  have b: "incRight0 \<le> incRight0 div 7 * 7 + 7 - 1" by presburger
  have c: "left \<le> incRight0" using assms(2) by (simp add: incRight0_def)
  show "0 < (if incRight0 mod 7 = 7 - 1
              then (if incRight0 < NUM_COLS - 1 then incRight0 + 1 else incRight0)
              else incRight0 div 7 * 7 + 7 - 1) - newLeft + 1"
    using a b c by auto
qed


lemma renderArea_returns:
  assumes "isValidScreenArea left top_row width height"
  shows "\<exists>d'. renderArea (rawBytes, rgbaData) asMono left top_row width height
     = Returned (if hasSignature rawBytes
                 then aset rawBytes MODE_BYTE_OFFSET (if asMono then 0 else 1)
                 else rawBytes, d')"
proof -
  from assms have v: "0 \<le> left" "0 < width" "0 \<le> top_row" "top_row + height \<le> 192"
    by (auto simp: isValidScreenArea_def)
  define rawBytes' where "rawBytes' = (if hasSignature rawBytes
                 then aset rawBytes MODE_BYTE_OFFSET (if asMono then 0 else 1)
                 else rawBytes)"
  define newLeft where "newLeft = (if left mod 7 = 0 then (if left = 0 then left else left - 1)
                       else left div 7 * 7)"
  define newWidth where "newWidth = (if (left + width - 1) mod 7 = 7 - 1
              then (if left + width - 1 < NUM_COLS - 1 then left + width - 1 + 1 else left + width - 1)
              else (left + width - 1) div 7 * 7 + 7 - 1) - newLeft + 1"
  have n: "0 \<le> newLeft" "0 < newWidth"
    using expanded_area [OF v(1,2)] unfolding newLeft_def newWidth_def by simp_all
  define left' where "left' = (if \<not> asMono then newLeft else left)"
  define width' where "width' = (if \<not> asMono then newWidth else width)"
  have "0 \<le> left'" "0 < width'" using n v by (auto simp: left'_def width'_def)
  from render_rows_returns [OF v(3,4) this, of rawBytes' asMono rgbaData]
  obtain d' where d: "render_rows rawBytes' asMono left' width' top_row (top_row + height) rgbaData
      = Returned d'"
    by blast
  have eqs: "js_rem left 7 = left mod 7" "js_trunc_div left 7 = left div 7"
    "js_rem (left + width - 1) 7 = (left + width - 1) mod 7"
    "js_trunc_div (left + width - 1) 7 = (left + width - 1) div 7"
    using v by (simp_all add: js_rem_nonneg js_trunc_div_nonneg)
  note d1 = d [unfolded rawBytes'_def left'_def width'_def newWidth_def newLeft_def]
  have "renderArea (rawBytes, rgbaData) asMono left top_row width height
     = Returned (if hasSignature rawBytes
                 then aset rawBytes MODE_BYTE_OFFSET (if asMono then 0 else 1)
                 else rawBytes, d')"
    by (simp only: renderArea_def prod.case assms not_True_eq_False if_False Let_def eqs d1
          outcome.case)
  then show ?thesis by blast
qed

section \<open>Claims about renderArea\<close>

text \<open>
  C9. A call of \<^verbatim>\<open>renderArea\<close> on a valid screen area returns. If the signature is present
  at offsets 121 to 127, the byte at offset 120 afterwards is 0 when \<^verbatim>\<open>asMono\<close> is true and
  1 otherwise, and no other byte of the raw buffer has changed; if the signature is absent the
  raw buffer is unchanged.
\<close>

theorem renderArea_raw_bytes:
  assumes "isValidScreenArea left top_row width height"
  shows "\<exists>rawBytes' rgbaData'.
      renderArea (rawBytes, rgbaData) asMono left top_row width height
         = Returned (rawBytes', rgbaData') \<and>
      length rawBytes' = length rawBytes \<and>
      (\<forall>i. i \<noteq> MODE_BYTE_OFFSET \<longrightarrow> aget rawBytes' i = aget rawBytes i) \<and>
      (hasSignature rawBytes \<longrightarrow>
          aget rawBytes' MODE_BYTE_OFFSET = Some (if asMono then 0 else 1)) \<and>
      (\<not> hasSignature rawBytes \<longrightarrow> rawBytes' = rawBytes)"
proof -
  from renderArea_returns [OF assms, of rawBytes rgbaData asMono]
  obtain d' where r: "renderArea (rawBytes, rgbaData) asMono left top_row width height
     = Returned (if hasSignature rawBytes
                 then aset rawBytes MODE_BYTE_OFFSET (if asMono then 0 else 1)
                 else rawBytes, d')"
    by blast
  show ?thesis
  proof (cases "hasSignature rawBytes")
    case True
    from hasSignature_length [OF True]
    have "aget (aset rawBytes MODE_BYTE_OFFSET (if asMono then 0 else 1)) MODE_BYTE_OFFSET
        = Some (if asMono then 0 else 1)"
      by (simp add: aget_aset_same)
    with r True show ?thesis
      by (simp add: length_aset aget_aset_other)
  next
    case False
    with r show ?thesis by simp
  qed
qed


lemma upt_7: "[0..<7] = [0, 1, 2, 3, 4, 5, 6]"
  by code_simp

lemma length_new_StdHiRes: "length new_StdHiRes = 8184"
  by (simp add: new_StdHiRes_def SIGNATURE_def upt_7 length_aset)

lemma aget_new_StdHiRes:
  "aget new_StdHiRes 120 = Some 1"
  "aget new_StdHiRes 121 = Some 0x48" "aget new_StdHiRes 122 = Some 0x47"
  "aget new_StdHiRes 123 = Some 0x52" "aget new_StdHiRes 124 = Some 0x54"
  "aget new_StdHiRes 125 = Some 0x6f" "aget new_StdHiRes 126 = Some 0x6f"
  "aget new_StdHiRes 127 = Some 0x6c"
  by (simp_all add: new_StdHiRes_def SIGNATURE_def upt_7 aget_aset length_aset
        aget_def [of "[_, _, _, _, _, _, _]"])

lemma hasSignature_new_StdHiRes: "hasSignature new_StdHiRes"
  by (simp add: hasSignature_def upt_7 aget_new_StdHiRes SIGNATURE_def
        aget_def [of "[_, _, _, _, _, _, _]"])

lemma no_signature_in_zeros: "\<not> hasSignature (replicate 8184 0)"
  by (simp add: hasSignature_def upt_7 SIGNATURE_def aget_def)

theorem renderArea_raw_bytes_witness:
  "isValidScreenArea 3 5 10 2 \<and>
   hasSignature new_StdHiRes \<and> aget new_StdHiRes MODE_BYTE_OFFSET = Some 1 \<and>
   (\<exists>rawBytes' rgbaData'.
      renderArea (new_StdHiRes, replicate 215040 0) True 3 5 10 2
         = Returned (rawBytes', rgbaData') \<and>
      length rawBytes' = length new_StdHiRes \<and>
      (\<forall>i. i \<noteq> MODE_BYTE_OFFSET \<longrightarrow> aget rawBytes' i = aget new_StdHiRes i) \<and>
      aget rawBytes' MODE_BYTE_OFFSET = Some 0 \<and>
      rawBytes' \<noteq> new_StdHiRes) \<and>
   (\<exists>rgbaData'.
      renderArea (new_StdHiRes, replicate 215040 0) False 3 5 10 2
         = Returned (new_StdHiRes, rgbaData')) \<and>
   \<not> hasSignature (replicate 8184 0) \<and>
   (\<exists>rgbaData'.
      renderArea (replicate 8184 0, replicate 215040 0) True 3 5 10 2
         = Returned (replicate 8184 0, rgbaData'))"
proof -
  have v: "isValidScreenArea 3 5 10 2" by (simp add: isValidScreenArea_def)
  note s = hasSignature_new_StdHiRes
  note m = aget_new_StdHiRes(1)
  from renderArea_raw_bytes [OF v, of new_StdHiRes "replicate 215040 0" True]
  obtain b1 d1 where r1:
      "renderArea (new_StdHiRes, replicate 215040 0) True 3 5 10 2 = Returned (b1, d1)"
      "length b1 = length new_StdHiRes"
      "\<forall>i. i \<noteq> MODE_BYTE_OFFSET \<longrightarrow> aget b1 i = aget new_StdHiRes i"
      "aget b1 MODE_BYTE_OFFSET = Some 0"
    using s by auto
  from r1(4) m have ne: "b1 \<noteq> new_StdHiRes" by auto
  from renderArea_raw_bytes [OF v, of new_StdHiRes "replicate 215040 0" False]
  obtain b2 d2 where r2:
      "renderArea (new_StdHiRes, replicate 215040 0) False 3 5 10 2 = Returned (b2, d2)"
      "length b2 = length new_StdHiRes"
      "\<forall>i. i \<noteq> MODE_BYTE_OFFSET \<longrightarrow> aget b2 i = aget new_StdHiRes i"
      "aget b2 MODE_BYTE_OFFSET = Some 1"
    using s by auto
  have "b2 = new_StdHiRes"
  proof (rule nth_equalityI)
    show "length b2 = length new_StdHiRes" by (rule r2(2))
  next
    fix k assume k: "k < length b2"
    have "aget b2 (int k) = aget new_StdHiRes (int k)"
      using r2(3,4) m by (cases "int k = MODE_BYTE_OFFSET") auto
    with k r2(2) show "b2 ! k = new_StdHiRes ! k" by (simp add: aget_def)
  qed
  with r2(1) have same: "\<exists>rgbaData'.
      renderArea (new_StdHiRes, replicate 215040 0) False 3 5 10 2
         = Returned (new_StdHiRes, rgbaData')"
    by blast
  note z = no_signature_in_zeros
  from renderArea_raw_bytes [OF v, of "replicate 8184 0" "replicate 215040 0" True] z
  have zeros: "\<exists>rgbaData'.
      renderArea (replicate 8184 0, replicate 215040 0) True 3 5 10 2
         = Returned (replicate 8184 0, rgbaData')"
    by auto
  from v s m r1 ne same z zeros show ?thesis by blast
qed

lemma normalize_row_spec:
  "length (normalize_row rowOffset col cmap) = length cmap \<and>
   (\<forall>i. aget (normalize_row rowOffset col cmap) i =
       (if rowOffset + col \<le> i \<and> i < rowOffset + NUM_COLS
        then map_option norm_color (aget cmap i) else aget cmap i))"
proof (induction rowOffset col cmap rule: normalize_row.induct)
  case (1 rowOffset col cmap)
  show ?case
  proof (cases "col < NUM_COLS")
    case False
    then have "normalize_row rowOffset col cmap = cmap"
      by (subst normalize_row.simps) simp
    with False show ?thesis by auto
  next
    case True
    define val where "val = aget cmap (rowOffset + col)"
    define cmap1 where "cmap1 = (if val = Some 4 then aset cmap (rowOffset + col) 0
           else if val = Some 7 then aset cmap (rowOffset + col) 3
           else cmap)"
    have len1: "length cmap1 = length cmap" by (simp add: cmap1_def length_aset)
    have get1: "aget cmap1 i = (if i = rowOffset + col then map_option norm_color (aget cmap i)
                                else aget cmap i)" for i
    proof (cases "i = rowOffset + col")
      case False
      then show ?thesis by (simp add: cmap1_def aget_aset_other)
    next
      case True
      show ?thesis
      proof (cases "0 \<le> i \<and> i < int (length cmap)")
        case False
        then have "aget cmap i = None" "aget cmap1 i = None"
          by (auto simp: aget_def len1)
        then show ?thesis by auto
      next
        case in_range: True
        then obtain v where v: "aget cmap i = Some v" by (auto simp: aget_def)
        with True in_range show ?thesis
          by (auto simp: cmap1_def val_def aget_aset_same norm_color_def)
      qed
    qed
    have unfold: "normalize_row rowOffset col cmap = normalize_row rowOffset (col + 1) cmap1"
      by (subst normalize_row.simps) (simp only: True if_True Let_def cmap1_def val_def)
    from "1.IH" [OF True val_def, folded cmap1_def]
    have ih: "length (normalize_row rowOffset (col + 1) cmap1) = length cmap1"
      "\<And>i. aget (normalize_row rowOffset (col + 1) cmap1) i =
       (if rowOffset + (col + 1) \<le> i \<and> i < rowOffset + NUM_COLS
        then map_option norm_color (aget cmap1 i) else aget cmap1 i)"
      by auto
    show ?thesis
      unfolding unfold using True by (auto simp: ih len1 get1)
  qed
qed


lemma norm_color_final: "v \<in> W_render asMono \<union> S_final asMono \<Longrightarrow> norm_color v \<in> S_final asMono"
  by (auto simp: W_render_def S_final_def W_mono_def W_color_def norm_color_def)

lemma set_conv_aget: "set m \<subseteq> S \<longleftrightarrow> (\<forall>i. aget m i \<in> insert None (Some ` S))"
proof
  assume a: "set m \<subseteq> S"
  show "\<forall>i. aget m i \<in> insert None (Some ` S)"
  proof
    fix i
    show "aget m i \<in> insert None (Some ` S)"
    proof (cases "0 \<le> i \<and> i < int (length m)")
      case True
      then have "m ! nat i \<in> set m" by (simp add: nat_less_iff)
      with a True show ?thesis by (auto simp: aget_def)
    next
      case False
      then show ?thesis by (auto simp: aget_def)
    qed
  qed
next
  assume b: "\<forall>i. aget m i \<in> insert None (Some ` S)"
  show "set m \<subseteq> S"
  proof
    fix v assume "v \<in> set m"
    then obtain k where k: "k < length m" "m ! k = v" by (auto simp: in_set_conv_nth)
    then have "aget m (int k) = Some v" by (simp add: aget_def)
    with b [rule_format, of "int k"] show "v \<in> S" by auto
  qed
qed

lemma normalized_row_final:
  assumes "set m \<subseteq> S_final asMono"
    and "cells_changed (W_render asMono) (row * NUM_COLS) (row * NUM_COLS + NUM_COLS - 1) m m1"
  shows "set (normalize_row (row * NUM_COLS) 0 m1) \<subseteq> S_final asMono"
    and "length (normalize_row (row * NUM_COLS) 0 m1) = length m"
proof -
  let ?m2 = "normalize_row (row * NUM_COLS) 0 m1"
  from normalize_row_spec [of "row * NUM_COLS" 0 m1]
  have len: "length ?m2 = length m1"
    and get: "\<And>i. aget ?m2 i =
       (if row * NUM_COLS \<le> i \<and> i < row * NUM_COLS + NUM_COLS
        then map_option norm_color (aget m1 i) else aget m1 i)"
    by auto
  from assms(2) have len1: "length m1 = length m"
    and ch: "\<And>i. aget m1 i = aget m i \<or>
        (row * NUM_COLS \<le> i \<and> i \<le> row * NUM_COLS + NUM_COLS - 1 \<and> aget m1 i \<in> Some ` W_render asMono)"
    by (auto simp: cells_changed_def)
  from assms(1) have old: "\<And>i. aget m i \<in> insert None (Some ` S_final asMono)"
    by (simp add: set_conv_aget)
  show "length ?m2 = length m" using len len1 by simp
  have "aget ?m2 i \<in> insert None (Some ` S_final asMono)" for i
  proof (cases "row * NUM_COLS \<le> i \<and> i < row * NUM_COLS + NUM_COLS")
    case True
    from ch [of i] old [of i]
    have "aget m1 i \<in> insert None (Some ` (W_render asMono \<union> S_final asMono))" by auto
    then have "map_option norm_color (aget m1 i) \<in> insert None (Some ` S_final asMono)"
    proof (cases "aget m1 i")
      case None
      then show ?thesis by simp
    next
      case (Some x)
      assume "aget m1 i \<in> insert None (Some ` (W_render asMono \<union> S_final asMono))"
      with Some have "x \<in> W_render asMono \<union> S_final asMono" by auto
      from norm_color_final [OF this] Some show ?thesis by simp
    qed
    with True show ?thesis by (simp add: get)
  next
    case False
    with ch [of i] old [of i] have "aget m1 i \<in> insert None (Some ` S_final asMono)" by auto
    with False show ?thesis unfolding get by auto
  qed
  then show "set ?m2 \<subseteq> S_final asMono" by (simp add: set_conv_aget)
qed

lemma colormap_rows_final:
  assumes "0 \<le> row" "set cmap \<subseteq> S_final asMono"
  shows "\<exists>m. colormap_rows rawBytes asMono row cmap = Inr m \<and> length m = length cmap \<and>
             set m \<subseteq> S_final asMono"
  using assms
proof (induction rawBytes asMono row cmap rule: colormap_rows.induct)
  case (1 rawBytes asMono row cmap)
  show ?case
  proof (cases "row < NUM_ROWS")
    case False
    then show ?thesis using "1.prems" by (subst colormap_rows.simps) simp
  next
    case True
    then have row: "0 \<le> row" "row \<le> 191" using "1.prems" by auto
    have z: "(0::int) \<le> 0" "(0::int) < NUM_COLS" by simp_all
    obtain r' c' where line:
      "(if asMono then renderLineAsMono rawBytes None row 0 NUM_COLS (Some cmap)
        else renderLineAsColor rawBytes None row 0 NUM_COLS (Some cmap)) = Returned (r', c')"
      and st: "cmap_step (W_render asMono) (row * NUM_COLS + 0) (row * NUM_COLS + 0 + NUM_COLS - 1)
                 (Some cmap) c'"
      using renderLineAsMono_step [OF row z, of rawBytes None "Some cmap"]
        renderLineAsColor_step [OF row z, of rawBytes None "Some cmap"]
      by (cases asMono) (auto simp: W_render_def)
    from st obtain m1 where c': "c' = Some m1"
      and ch: "cells_changed (W_render asMono) (row * NUM_COLS) (row * NUM_COLS + NUM_COLS - 1) cmap m1"
      by (cases c') (auto simp: cmap_step_def)
    have cm: "cmap_of (r', c') cmap = m1" by (simp add: cmap_of_def c')
    note nf = normalized_row_final [OF "1.prems"(2) ch]
    from "1.IH" [OF True line, unfolded cm] row nf
    obtain m where "colormap_rows rawBytes asMono (row + 1)
           (normalize_row (row * NUM_COLS) 0 m1) = Inr m"
       "length m = length cmap" "set m \<subseteq> S_final asMono"
      by auto
    then show ?thesis
      using True line cm
      by (subst colormap_rows.simps) (simp only: if_True outcome.case, simp)
  qed
qed

section \<open>Claims about generateColorMap\<close>

text \<open>
  C10. For every buffer, \<^verbatim>\<open>generateColorMap\<close> returns a map of 280 x 192 cells whose
  entries all lie in {0, 1, 2, 3, 5, 6}, and in {0, 3} when \<^verbatim>\<open>asMono\<close> is true. The map
  contains neither 4 nor 7, nor the flood-fill marker 0xff.
\<close>

theorem generateColorMap_values:
  "\<exists>m. generateColorMap rawBytes asMono = Inr m \<and> length m = 280 * 192 \<and>
       (\<forall>v\<in>set m. v \<in> {0, 1, 2, 3, 5, 6} \<and> (asMono \<longrightarrow> v \<in> {0, 3}) \<and>
                   v \<noteq> 4 \<and> v \<noteq> 7 \<and> v \<noteq> 0xff)"
proof -
  have "set (replicate (nat (NUM_COLS * NUM_ROWS)) (0::byte)) \<subseteq> S_final asMono"
    by (auto simp: S_final_def)
  from colormap_rows_final [OF _ this, of 0 rawBytes]
  obtain m where m: "generateColorMap rawBytes asMono = Inr m"
     "length m = 280 * 192" "set m \<subseteq> S_final asMono"
    by (auto simp: generateColorMap_def)
  have "v \<in> {0, 1, 2, 3, 5, 6} \<and> (asMono \<longrightarrow> v \<in> {0, 3}) \<and> v \<noteq> 4 \<and> v \<noteq> 7 \<and> v \<noteq> 0xff"
    if "v \<in> S_final asMono" for v
    using that by (auto simp: S_final_def split: if_splits)
  with m show ?thesis by blast
qed

theorem generateColorMap_values_witness:
  "\<exists>m. generateColorMap (replicate 8184 0xd5) False = Inr m \<and> length m = 280 * 192 \<and>
       (\<forall>v\<in>set m. v \<in> {0, 1, 2, 3, 5, 6} \<and> (False \<longrightarrow> v \<in> {0, 3}) \<and>
                   v \<noteq> 4 \<and> v \<noteq> 7 \<and> v \<noteq> 0xff)"
  by (rule generateColorMap_values)


lemma length_xor_buf: "length d = length b \<Longrightarrow> length (xor_buf b d) = length b"
  by (simp add: xor_buf_def)

lemma nth_xor_buf: "length d = length b \<Longrightarrow> n < length b \<Longrightarrow> xor_buf b d ! n = b ! n XOR d ! n"
  by (simp add: xor_buf_def)

lemma xor_cancel_byte: "(x::byte) XOR (y XOR x) = y" "y XOR (y XOR x) = x"
  by (rule bit_word_eqI; auto simp: bit_simps)+

lemma xor_buf_cancel:
  assumes "length b1 = length b"
  shows "xor_buf b (xor_buf b1 b) = b1" and "xor_buf b1 (xor_buf b1 b) = b"
  using assms by (auto intro!: nth_equalityI simp: length_xor_buf nth_xor_buf xor_cancel_byte)

lemma xor_word: "(word_of_int (uint (x XOR y) XOR v) :: byte) = word_of_int (uint x XOR v) XOR y"
  by (rule bit_word_eqI) (auto simp: bit_simps)

lemma aset_xor_buf:
  assumes "length d = length b"
  shows "aset (xor_buf b d) i (toInt32 (aget (xor_buf b d) i) XOR v)
       = xor_buf (aset b i (toInt32 (aget b i) XOR v)) d"
proof (cases "0 \<le> i \<and> i < int (length b)")
  case False
  then show ?thesis using assms by (simp add: aset_out_of_range length_xor_buf)
next
  case True
  then have n: "nat i < length b" by (simp add: nat_less_iff)
  have l: "length (xor_buf b d) = length b" using assms by (rule length_xor_buf)
  show ?thesis
  proof (rule nth_equalityI)
    show "length (aset (xor_buf b d) i (toInt32 (aget (xor_buf b d) i) XOR v))
        = length (xor_buf (aset b i (toInt32 (aget b i) XOR v)) d)"
      using assms by (simp add: length_aset length_xor_buf)
  next
    fix k assume "k < length (aset (xor_buf b d) i (toInt32 (aget (xor_buf b d) i) XOR v))"
    then have k: "k < length b" by (simp add: length_aset l)
    show "aset (xor_buf b d) i (toInt32 (aget (xor_buf b d) i) XOR v) ! k
        = xor_buf (aset b i (toInt32 (aget b i) XOR v)) d ! k"
      using True n k assms l
      by (cases "k = nat i")
         (simp_all add: aset_def aget_def nth_xor_buf xor_word)
  qed
qed

lemma put_cols_xor_unfold:
  "put_cols XFER_XOR rowOffset leftOutCol copyWidth adjustedStart pixTmp maskTmp byteCol rawBytes =
     (if byteCol < copyWidth then
        if leftOutCol + byteCol < 0
        then put_cols XFER_XOR rowOffset leftOutCol copyWidth adjustedStart pixTmp maskTmp
               (byteCol + 1) rawBytes
        else if leftOutCol + byteCol \<ge> NUM_COL_BYTES then Returned rawBytes
        else if \<not> (byteCol + adjustedStart < int (length pixTmp))
        then Threw AssertionFailed rawBytes
        else put_cols XFER_XOR rowOffset leftOutCol copyWidth adjustedStart pixTmp maskTmp
               (byteCol + 1)
               (aset rawBytes (rowOffset + (leftOutCol + byteCol))
                  (toInt32 (aget rawBytes (rowOffset + (leftOutCol + byteCol))) XOR
                   (toInt32 (aget pixTmp (byteCol + adjustedStart)) AND
                    toInt32 (aget maskTmp (byteCol + adjustedStart)))))
      else Returned rawBytes)"
  by (subst put_cols.simps)
     (simp add: Let_def XFER_XOR_def XFER_MERGE_def XFER_COPY_def)

lemma put_cols_xor_linear:
  assumes "length d = length b"
  shows "put_cols XFER_XOR rowOffset leftOutCol copyWidth adjustedStart pixTmp maskTmp byteCol
            (xor_buf b d)
       = map_outcome (\<lambda>b'. xor_buf b' d)
           (put_cols XFER_XOR rowOffset leftOutCol copyWidth adjustedStart pixTmp maskTmp byteCol b)"
  using assms
proof (induction "nat (copyWidth - byteCol)" arbitrary: byteCol b)
  case 0
  then have "\<not> byteCol < copyWidth" by simp
  then show ?case by (subst (1 2) put_cols_xor_unfold) simp
next
  case (Suc n)
  then have lt: "byteCol < copyWidth" and n: "n = nat (copyWidth - (byteCol + 1))" by auto
  note ih = Suc.hyps(1) [OF n]
  let ?i = "rowOffset + (leftOutCol + byteCol)"
  let ?v = "toInt32 (aget pixTmp (byteCol + adjustedStart)) AND
                    toInt32 (aget maskTmp (byteCol + adjustedStart))"
  have step: "length d = length (aset b ?i (toInt32 (aget b ?i) XOR ?v))"
    using Suc.prems by (simp add: length_aset)
  show ?case
    apply (subst (1 2) put_cols_xor_unfold)
    using lt Suc.prems
    by (simp add: ih aset_xor_buf [OF Suc.prems] ih [OF step])
qed


lemma length_put_cols:
  "length (state_of (put_cols xferMode rowOffset leftOutCol copyWidth adjustedStart pixTmp maskTmp
      byteCol rawBytes)) = length rawBytes"
proof (induction xferMode rowOffset leftOutCol copyWidth adjustedStart pixTmp maskTmp
      byteCol rawBytes rule: put_cols.induct)
  case (1 xferMode rowOffset leftOutCol copyWidth adjustedStart pixTmp maskTmp byteCol rawBytes)
  show ?case
    apply (subst put_cols.simps)
    using 1
    by (simp add: Let_def length_aset)
qed

lemma put_rows_xor_linear:
  assumes "length d = length b"
  shows "put_rows clipping yc XFER_XOR shiftDist adjustedStart leftOutCol copyWidth row
            (xor_buf b d, pixTmp, maskTmp)
       = map_outcome (\<lambda>st. (xor_buf (fst st) d, snd st))
           (put_rows clipping yc XFER_XOR shiftDist adjustedStart leftOutCol copyWidth row
              (b, pixTmp, maskTmp))"
  using assms
proof (induction "nat (c_height clipping - row)" arbitrary: row b pixTmp maskTmp)
  case 0
  then have "\<not> row < c_height clipping" by simp
  then show ?case by (subst (1 2) put_rows.simps) simp
next
  case (Suc n)
  then have lt: "row < c_height clipping" and n: "n = nat (c_height clipping - (row + 1))" by auto
  note ih = Suc.hyps(1) [OF n]
  show ?case
  proof (cases "row + yc < 0 \<or> row + yc \<ge> NUM_ROWS")
    case True
    then show ?thesis
      apply (subst (1 2) put_rows.simps)
      using lt Suc.prems by (auto simp: Let_def ih)
  next
    case False
    then obtain rowOffset where ro: "rowToOffset (row + yc) = Inr rowOffset"
      using rowToOffset_valid [of "row + yc"] by auto
    define tmps where "tmps =
                     (if shiftDist = 0 then copy_tmp clipping (row * c_byteStride clipping) 0 (pixTmp, maskTmp)
                      else
                        let revShift = 7 - shiftDist;
                            shiftMaskHi = js_shr 0x7f revShift;
                            pixTmp0 = aset pixTmp 0
                              (toInt32 (aget (c_pixArray clipping) (row * c_byteStride clipping)) AND 0x80);
                            maskTmp0 = aset maskTmp 0
                              (toInt32 (aget (c_maskArray clipping) (row * c_byteStride clipping)) AND 0x80)
                        in shift_tmp clipping (row * c_byteStride clipping) shiftDist revShift shiftMaskHi 0
                             (pixTmp0, maskTmp0))"
    have unf: "put_rows clipping yc XFER_XOR shiftDist adjustedStart leftOutCol copyWidth row
            (b', pixTmp, maskTmp) =
         (case put_cols XFER_XOR rowOffset leftOutCol copyWidth adjustedStart
                          (fst tmps) (snd tmps) 0 b' of
                     Threw e rawBytes' \<Rightarrow> Threw e (rawBytes', fst tmps, snd tmps)
                   | Returned rawBytes' \<Rightarrow>
                       put_rows clipping yc XFER_XOR shiftDist adjustedStart leftOutCol
                         copyWidth (row + 1) (rawBytes', fst tmps, snd tmps))" for b'
    proof -
      have c: "\<not> row + yc < 0" "\<not> row + yc \<ge> NUM_ROWS" using False by auto
      show ?thesis
        unfolding tmps_def
        by (subst put_rows.simps) (simp only: lt c if_True if_False Let_def ro sum.case)
    qed
    have lin: "put_cols XFER_XOR rowOffset leftOutCol copyWidth adjustedStart
                          (fst tmps) (snd tmps) 0 (xor_buf b d)
        = map_outcome (\<lambda>b'. xor_buf b' d) (put_cols XFER_XOR rowOffset leftOutCol copyWidth adjustedStart
                          (fst tmps) (snd tmps) 0 b)"
      using Suc.prems by (rule put_cols_xor_linear)
    show ?thesis
    proof (cases "put_cols XFER_XOR rowOffset leftOutCol copyWidth adjustedStart
                          (fst tmps) (snd tmps) 0 b")
      case (Threw e b1)
      then show ?thesis by (simp add: unf lin)
    next
      case (Returned b1)
      from length_put_cols [of XFER_XOR rowOffset leftOutCol copyWidth adjustedStart
           "fst tmps" "snd tmps" 0 b] Returned Suc.prems
      have "length d = length b1" by simp
      from ih [OF this, of "fst tmps" "snd tmps"] Returned show ?thesis by (simp add: unf lin)
    qed
  qed
qed


lemma length_put_rows:
  "length (fst (state_of (put_rows clipping yc xferMode shiftDist adjustedStart leftOutCol
      copyWidth row st))) = length (fst st)"
proof (induction clipping yc xferMode shiftDist adjustedStart leftOutCol copyWidth row st
         rule: put_rows.induct)
  case (1 clipping yc xferMode shiftDist adjustedStart leftOutCol copyWidth row rawBytes pixTmp maskTmp)
  show ?case
  proof (cases "row < c_height clipping \<and> \<not> row + yc < 0 \<and> \<not> row + yc \<ge> NUM_ROWS")
    case False
    then show ?thesis
      apply (subst put_rows.simps)
      using 1 by (auto simp: Let_def)
  next
    case True
    then obtain rowOffset where ro: "rowToOffset (row + yc) = Inr rowOffset"
      using rowToOffset_valid [of "row + yc"] by auto
    define tmps where "tmps =
                     (if shiftDist = 0 then copy_tmp clipping (row * c_byteStride clipping) 0 (pixTmp, maskTmp)
                      else
                        let revShift = 7 - shiftDist;
                            shiftMaskHi = js_shr 0x7f revShift;
                            pixTmp0 = aset pixTmp 0
                              (toInt32 (aget (c_pixArray clipping) (row * c_byteStride clipping)) AND 0x80);
                            maskTmp0 = aset maskTmp 0
                              (toInt32 (aget (c_maskArray clipping) (row * c_byteStride clipping)) AND 0x80)
                        in shift_tmp clipping (row * c_byteStride clipping) shiftDist revShift shiftMaskHi 0
                             (pixTmp0, maskTmp0))"
    have c: "row < c_height clipping" "\<not> row + yc < 0" "\<not> row + yc \<ge> NUM_ROWS" using True by auto
    have unf: "put_rows clipping yc xferMode shiftDist adjustedStart leftOutCol copyWidth row
            (rawBytes, pixTmp, maskTmp) =
         (case put_cols xferMode rowOffset leftOutCol copyWidth adjustedStart
                          (fst tmps) (snd tmps) 0 rawBytes of
                     Threw e rawBytes' \<Rightarrow> Threw e (rawBytes', fst tmps, snd tmps)
                   | Returned rawBytes' \<Rightarrow>
                       put_rows clipping yc xferMode shiftDist adjustedStart leftOutCol
                         copyWidth (row + 1) (rawBytes', fst tmps, snd tmps))"
      unfolding tmps_def
      by (subst put_rows.simps) (simp only: c if_True if_False Let_def ro sum.case)
    note lc = length_put_cols [of xferMode rowOffset leftOutCol copyWidth adjustedStart
           "fst tmps" "snd tmps" 0 rawBytes]
    show ?thesis
    proof (cases "put_cols xferMode rowOffset leftOutCol copyWidth adjustedStart
                          (fst tmps) (snd tmps) 0 rawBytes")
      case (Threw e b1)
      with lc show ?thesis by (simp add: unf)
    next
      case (Returned b1)
      from "1.IH"(2) [OF c(1) refl c(2,3) ro refl, folded tmps_def, OF refl Returned] lc Returned
      show ?thesis by (simp add: unf)
    qed
  qed
qed

lemma putClipping_xor_linear:
  assumes "length d = length b"
  shows "putClipping (xor_buf b d) clipping xc yc XFER_XOR
       = map_outcome (\<lambda>b'. xor_buf b' d) (putClipping b clipping xc yc XFER_XOR)"
proof -
  have "map_outcome fst (map_outcome (\<lambda>st. (xor_buf (fst st) d, snd st)) r)
      = map_outcome (\<lambda>b'. xor_buf b' d) (map_outcome fst r)"
    for r :: "(byte list \<times> byte list \<times> byte list) outcome"
    by (cases r) simp_all
  moreover have "(case r of Threw e st \<Rightarrow> Threw e (fst st) | Returned st \<Rightarrow> Returned (fst st))
      = map_outcome fst r" for r :: "(byte list \<times> byte list \<times> byte list) outcome"
    by (cases r) simp_all
  ultimately show ?thesis
    using assms
    by (simp add: putClipping_def Let_def put_rows_xor_linear)
qed

lemma length_putClipping:
  "length (state_of (putClipping rawBytes clipping xc yc xferMode)) = length rawBytes"
proof -
  have "state_of (case r of Threw e st \<Rightarrow> Threw e (fst st) | Returned st \<Rightarrow> Returned (fst st))
      = fst (state_of r)" for r :: "(byte list \<times> byte list \<times> byte list) outcome"
    by (cases r) simp_all
  then show ?thesis
    by (simp add: putClipping_def Let_def length_put_rows)
qed

section \<open>Claims about putClipping\<close>

text \<open>
  C2. For every clipping, every target coordinate (also one that places the clipping partly or
  wholly off screen) and every buffer, applying \<^verbatim>\<open>putClipping\<close> with the XOR transfer mode
  twice in succession leaves the raw buffer as it was before the first application.
\<close>

theorem putClipping_xor_twice:
  "state_of (putClipping (state_of (putClipping rawBytes clipping xc yc XFER_XOR))
               clipping xc yc XFER_XOR) = rawBytes"
proof -
  define b1 where "b1 = state_of (putClipping rawBytes clipping xc yc XFER_XOR)"
  have l1: "length b1 = length rawBytes" unfolding b1_def by (rule length_putClipping)
  define d where "d = xor_buf b1 rawBytes"
  have ld: "length d = length rawBytes" unfolding d_def using l1 by (simp add: xor_buf_def)
  have "b1 = xor_buf rawBytes d" unfolding d_def using xor_buf_cancel(1) [OF l1] by simp
  then have "putClipping b1 clipping xc yc XFER_XOR
      = map_outcome (\<lambda>b'. xor_buf b' d) (putClipping rawBytes clipping xc yc XFER_XOR)"
    using putClipping_xor_linear [OF ld] by simp
  then have "state_of (putClipping b1 clipping xc yc XFER_XOR) = xor_buf b1 d"
    by (cases "putClipping rawBytes clipping xc yc XFER_XOR") (simp_all add: b1_def)
  also have "\<dots> = rawBytes" unfolding d_def by (rule xor_buf_cancel(2) [OF l1])
  finally show ?thesis unfolding b1_def .
qed

lemma rowToOffset_0: "rowToOffset 0 = Inr 0"
  by (simp add: rowToOffset_def)

theorem putClipping_xor_twice_witness:
  "state_of (putClipping (replicate 8184 0)
       \<lparr>c_source = FORMAT_NAME, c_width = 2, c_height = 1, c_byteStride = 1, c_leftOff = 0,
         c_pixArray = [0x03], c_maskArray = [0x83]\<rparr> 0 0 XFER_XOR)
     = (replicate 8184 0)[0 := 0x03] \<and>
   state_of (putClipping ((replicate 8184 0)[0 := 0x03])
       \<lparr>c_source = FORMAT_NAME, c_width = 2, c_height = 1, c_byteStride = 1, c_leftOff = 0,
         c_pixArray = [0x03], c_maskArray = [0x83]\<rparr> 0 0 XFER_XOR)
     = replicate 8184 0"
proof -
  let ?c = "\<lparr>c_source = FORMAT_NAME, c_width = 2, c_height = 1, c_byteStride = 1, c_leftOff = 0,
         c_pixArray = [0x03], c_maskArray = [0x83]\<rparr>"
  have first: "state_of (putClipping (replicate 8184 0) ?c 0 0 XFER_XOR)
     = (replicate 8184 0)[0 := 0x03]"
    by (simp add: putClipping_def isValidXferMode_def js_rem_def js_trunc_div_def Let_def
          put_rows.simps rowToOffset_0 copy_tmp.simps put_cols_xor_unfold aget_def aset_def)
  from putClipping_xor_twice [of "replicate 8184 0" ?c 0 0] first
  show ?thesis by simp
qed

section \<open>Claims about renderLineAsMono\<close>

lemma mono_unaligned:
  assumes "aget rawBytes 0 = Some 0x80"
  shows "renderLineAsMono rawBytes None 0 1 1 (Some m) = Returned (None, Some (aset m 1 0))"
  using assms
  by (simp add: renderLineAsMono_def rowToOffset_0 Let_def js_trunc_div_def js_rem_def js_shr_def
        mono_while.simps mono_for.simps emit_index_def)

lemma mono_aligned:
  assumes "aget rawBytes 0 = Some 0x80"
  shows "renderLineAsMono rawBytes None 0 0 2 (Some m)
           = Returned (None, Some (aset (aset m 0 4) 1 4))"
  using assms
  by (simp add: renderLineAsMono_def rowToOffset_0 Let_def js_trunc_div_def js_rem_def js_shr_def
        mono_while.simps mono_for.simps emit_index_def)

text \<open>
  C5, the code at the failing input. The first byte of row 0 is 0x80: mode bit set, all seven
  pixel bits clear, so by the claim every pixel of that byte has colour index 4. Rendering
  columns 0 and 1 in monochrome stores index 4 for pixel 1, but rendering the area that starts
  at column 1 stores index 0 for the same pixel: \<^verbatim>\<open>highAdj\<close> is taken from the byte after it
  has been shifted right by the left edge's bit offset, so the mode bit is lost whenever the
  area does not start on a byte boundary.
\<close>

theorem renderLineAsMono_unaligned_loses_mode_bit:
  "renderLineAsMono (0x80 # replicate 8183 0) None 0 1 1 (Some (replicate 53760 0xff))
     = Returned (None, Some ((replicate 53760 0xff)[1 := 0])) \<and>
   renderLineAsMono (0x80 # replicate 8183 0) None 0 0 2 (Some (replicate 53760 0xff))
     = Returned (None, Some ((replicate 53760 0xff)[0 := 4, 1 := 4]))"
proof -
  have a: "aget (0x80 # replicate 8183 (0::byte)) 0 = Some 0x80" by (simp add: aget_def)
  show ?thesis
    by (simp add: mono_unaligned [OF a] mono_aligned [OF a] aset_def)
qed

section \<open>The clipping round trip\<close>


lemma toInt32_roundtrip: "uint (word_of_int (toInt32 a) :: byte) = toInt32 a"
  by (cases a) simp_all

lemma clip_cols_unfold:
  "col \<le> rightByteCol \<Longrightarrow>
   clip_cols rawBytes leftByteCol rightByteCol leftMask rightMask col srcOffset dstOffset
       (pixArray, maskArray) =
   clip_cols rawBytes leftByteCol rightByteCol leftMask rightMask (col + 1)
       (srcOffset + 1) (dstOffset + 1)
       (aset pixArray dstOffset (toInt32 (aget rawBytes srcOffset)),
        aset maskArray dstOffset
          (if col = leftByteCol
           then (if leftByteCol = rightByteCol then leftMask AND rightMask else leftMask)
           else if col = rightByteCol then rightMask else 0xff))"
  by (subst clip_cols.simps) (simp only: if_True Let_def)

lemma clip_cols_done:
  "\<not> col \<le> rightByteCol \<Longrightarrow>
   clip_cols rawBytes leftByteCol rightByteCol leftMask rightMask col srcOffset dstOffset
       (pixArray, maskArray) = (pixArray, maskArray)"
  by (subst clip_cols.simps) simp

lemma clip_cols_pix:
  "length (fst (clip_cols rawBytes leftByteCol rightByteCol leftMask rightMask col srcOffset
       dstOffset (pixArray, maskArray))) = length pixArray \<and>
   (\<forall>j. aget (fst (clip_cols rawBytes leftByteCol rightByteCol leftMask rightMask col srcOffset
             dstOffset (pixArray, maskArray))) j =
     (if dstOffset \<le> j \<and> j < dstOffset + (rightByteCol + 1 - col) \<and>
         0 \<le> j \<and> j < int (length pixArray)
      then Some (word_of_int (toInt32 (aget rawBytes (srcOffset + (j - dstOffset)))))
      else aget pixArray j))"
proof (induction "nat (rightByteCol + 1 - col)"
         arbitrary: col srcOffset dstOffset pixArray maskArray)
  case 0
  then have "\<not> col \<le> rightByteCol" by simp
  then show ?case using 0 by (auto simp: clip_cols_done)
next
  case (Suc n)
  then have le: "col \<le> rightByteCol" and n: "n = nat (rightByteCol + 1 - (col + 1))" by auto
  note ih = Suc.hyps(1) [OF n, of "srcOffset + 1" "dstOffset + 1"
      "aset pixArray dstOffset (toInt32 (aget rawBytes srcOffset))"]
  show ?case
    unfolding clip_cols_unfold [OF le]
    using le by (auto simp: ih length_aset aget_aset)
qed


lemma clip_rows_pix:
  assumes "0 \<le> row" "0 \<le> top_row" "top_row + height \<le> 192" "0 < byteWidth"
    and "byteWidth = rightByteCol - leftByteCol + 1"
  shows "\<exists>pix' mask'.
      clip_rows rawBytes top_row height leftByteCol rightByteCol byteWidth leftMask rightMask row
        (pixArray, maskArray) = Inr (pix', mask') \<and>
      length pix' = length pixArray \<and>
      (\<forall>j. j < row * byteWidth \<longrightarrow> aget pix' j = aget pixArray j) \<and>
      (\<forall>r i off. row \<le> r \<and> r < height \<and> 0 \<le> i \<and> i < byteWidth \<and>
           r * byteWidth + i < int (length pixArray) \<and> rowToOffset (top_row + r) = Inr off \<longrightarrow>
         aget pix' (r * byteWidth + i)
           = Some (word_of_int (toInt32 (aget rawBytes (off + leftByteCol + i)))))"
  using assms(1)
proof (induction "nat (height - row)" arbitrary: row pixArray maskArray)
  case 0
  then have "\<not> row < height" by simp
  then show ?case by (subst clip_rows.simps) auto
next
  case (Suc n)
  then have lt: "row < height" and n: "n = nat (height - (row + 1))" by auto
  obtain off0 where off0: "rowToOffset (top_row + row) = Inr off0"
    using rowToOffset_valid [of "top_row + row"] lt Suc.prems assms(2,3) by auto
  define arrays1 where "arrays1 = clip_cols rawBytes leftByteCol rightByteCol leftMask rightMask
       leftByteCol (off0 + leftByteCol) (row * byteWidth) (pixArray, maskArray)"
  obtain pix1 mask1 where a1: "arrays1 = (pix1, mask1)" by (cases arrays1)
  from clip_cols_pix [of rawBytes leftByteCol rightByteCol leftMask rightMask leftByteCol
      "off0 + leftByteCol" "row * byteWidth" pixArray maskArray]
  have len1: "length pix1 = length pixArray"
    and get1: "\<And>j. aget pix1 j =
     (if row * byteWidth \<le> j \<and> j < row * byteWidth + byteWidth \<and>
         0 \<le> j \<and> j < int (length pixArray)
      then Some (word_of_int (toInt32 (aget rawBytes (off0 + leftByteCol + (j - row * byteWidth)))))
      else aget pixArray j)"
    unfolding arrays1_def [symmetric] a1 using assms(5) by auto
  have unf: "clip_rows rawBytes top_row height leftByteCol rightByteCol byteWidth leftMask
        rightMask row (pixArray, maskArray)
     = clip_rows rawBytes top_row height leftByteCol rightByteCol byteWidth leftMask
        rightMask (row + 1) (pix1, mask1)"
    unfolding a1 [symmetric] arrays1_def
    by (subst clip_rows.simps) (simp only: lt if_True off0 sum.case Let_def)
  have r1: "0 \<le> row + 1" using Suc.prems by simp
  from Suc.hyps(1) [OF n r1, of pix1 mask1]
  obtain pix' mask' where res:
      "clip_rows rawBytes top_row height leftByteCol rightByteCol byteWidth leftMask rightMask
        (row + 1) (pix1, mask1) = Inr (pix', mask')"
     and len': "length pix' = length pix1"
     and low: "\<And>j. j < (row + 1) * byteWidth \<Longrightarrow> aget pix' j = aget pix1 j"
     and high: "\<And>r i off. row + 1 \<le> r \<Longrightarrow> r < height \<Longrightarrow> 0 \<le> i \<Longrightarrow> i < byteWidth \<Longrightarrow>
           r * byteWidth + i < int (length pix1) \<Longrightarrow> rowToOffset (top_row + r) = Inr off \<Longrightarrow>
         aget pix' (r * byteWidth + i)
           = Some (word_of_int (toInt32 (aget rawBytes (off + leftByteCol + i))))"
    by blast
  have next_row: "(row + 1) * byteWidth = row * byteWidth + byteWidth"
    by (simp add: algebra_simps)
  have nonneg: "0 \<le> row * byteWidth" using Suc.prems assms(4) by simp
  have A: "aget pix' j = aget pixArray j" if "j < row * byteWidth" for j
  proof -
    have "j < (row + 1) * byteWidth" using that assms(4) by (simp add: next_row)
    then have "aget pix' j = aget pix1 j" by (rule low)
    also have "\<dots> = aget pixArray j" using that by (simp add: get1)
    finally show ?thesis .
  qed
  have B: "aget pix' (r * byteWidth + i)
           = Some (word_of_int (toInt32 (aget rawBytes (off + leftByteCol + i))))"
    if "row \<le> r" "r < height" "0 \<le> i" "i < byteWidth"
       "r * byteWidth + i < int (length pixArray)" "rowToOffset (top_row + r) = Inr off"
    for r i off
  proof (cases "r = row")
    case False
    with that(1) have "row + 1 \<le> r" by simp
    from high [OF this that(2,3,4) _ that(6)] that(5) len1 show ?thesis by simp
  next
    case True
    have "row * byteWidth + i < (row + 1) * byteWidth" using that(4) by (simp add: next_row)
    then have "aget pix' (row * byteWidth + i) = aget pix1 (row * byteWidth + i)" by (rule low)
    also have "\<dots> = Some (word_of_int (toInt32 (aget rawBytes (off0 + leftByteCol + i))))"
      using that(3,4,5) nonneg True by (simp add: get1)
    finally show ?thesis using True that(6) off0 by simp
  qed
  show ?case
    unfolding unf using res len' len1 A B by auto
qed


lemma createClipping_pix:
  assumes "isValidScreenArea left top_row width height"
  defines "byteWidth \<equiv> (left + width - 1) div 7 - left div 7 + 1"
  shows "\<exists>c. createClipping rawBytes left top_row width height = Inr c \<and>
      c_width c = width \<and> c_height c = height \<and> c_byteStride c = byteWidth \<and>
      c_leftOff c = left mod 7 \<and>
      (\<forall>r i off. 0 \<le> r \<and> r < height \<and> 0 \<le> i \<and> i < byteWidth \<and>
           rowToOffset (top_row + r) = Inr off \<longrightarrow>
         aget (c_pixArray c) (r * byteWidth + i)
           = Some (word_of_int (toInt32 (aget rawBytes (off + left div 7 + i)))))"
proof -
  from assms(1) have v: "0 \<le> left" "0 < width" "0 \<le> top_row" "top_row + height \<le> 192"
      "0 < height"
    by (auto simp: isValidScreenArea_def)
  have "left div 7 \<le> (left + width - 1) div 7"
    using v(2) by (intro zdiv_mono1) auto
  then have bw: "0 < byteWidth" by (simp add: byteWidth_def)
  define leftMask where "leftMask = js_shl 0xff (left mod 7) AND 0xff"
  define rightMask where "rightMask = js_shr 0x7f (6 - (left + width - 1) mod 7) OR 0x80"
  let ?pix0 = "replicate (nat (byteWidth * height)) (0::byte)"
  from clip_rows_pix [OF order_refl v(3,4) bw byteWidth_def [THEN meta_eq_to_obj_eq],
      of rawBytes leftMask rightMask ?pix0 ?pix0]
  obtain pix' mask' where res:
      "clip_rows rawBytes top_row height (left div 7) ((left + width - 1) div 7) byteWidth
         leftMask rightMask 0 (?pix0, ?pix0) = Inr (pix', mask')"
    and len: "length pix' = length ?pix0"
    and cells: "\<And>r i off. 0 \<le> r \<Longrightarrow> r < height \<Longrightarrow> 0 \<le> i \<Longrightarrow> i < byteWidth \<Longrightarrow>
           r * byteWidth + i < int (length ?pix0) \<Longrightarrow> rowToOffset (top_row + r) = Inr off \<Longrightarrow>
         aget pix' (r * byteWidth + i)
           = Some (word_of_int (toInt32 (aget rawBytes (off + left div 7 + i))))"
    by blast
  have inside: "r * byteWidth + i < int (length ?pix0)"
    if "0 \<le> r" "r < height" "0 \<le> i" "i < byteWidth" for r i
  proof -
    have "r * byteWidth + i < (r + 1) * byteWidth" using that(4) by (simp add: algebra_simps)
    also have "\<dots> \<le> height * byteWidth"
      using that(2) bw by (intro mult_right_mono) auto
    finally show ?thesis using bw v(5) by (simp add: mult.commute)
  qed
  have eqs: "js_rem left 7 = left mod 7" "js_trunc_div left 7 = left div 7"
    "js_rem (left + width - 1) 7 = (left + width - 1) mod 7"
    "js_trunc_div (left + width - 1) 7 = (left + width - 1) div 7"
    using v by (simp_all add: js_rem_nonneg js_trunc_div_nonneg)
  note res1 = res [unfolded leftMask_def rightMask_def byteWidth_def]
  have "createClipping rawBytes left top_row width height
      = new_Clipping FORMAT_NAME width height byteWidth (left - left div 7 * 7) pix' mask'"
    unfolding byteWidth_def
    by (simp only: createClipping_def assms(1) not_True_eq_False if_False Let_def eqs res1
          sum.case fst_conv snd_conv)
  moreover have "left - left div 7 * 7 = left mod 7"
    by (simp add: minus_div_mult_eq_mod)
  moreover have "0 \<le> left mod 7" by simp
  ultimately have "createClipping rawBytes left top_row width height
      = Inr \<lparr>c_source = FORMAT_NAME, c_width = width, c_height = height,
                c_byteStride = byteWidth, c_leftOff = left mod 7,
                c_pixArray = pix', c_maskArray = mask'\<rparr>"
    using v by (simp add: new_Clipping_def)
  then show ?thesis using cells inside by auto
qed

lemma copy_tmp_unfold:
  "i < c_byteStride clipping \<Longrightarrow>
   copy_tmp clipping srcOffset i (pixTmp, maskTmp) =
   copy_tmp clipping srcOffset (i + 1)
          (aset pixTmp i (toInt32 (aget (c_pixArray clipping) (srcOffset + i))),
           aset maskTmp i (toInt32 (aget (c_maskArray clipping) (srcOffset + i))))"
  by (subst copy_tmp.simps) simp

lemma copy_tmp_done:
  "\<not> i < c_byteStride clipping \<Longrightarrow> copy_tmp clipping srcOffset i (pixTmp, maskTmp) = (pixTmp, maskTmp)"
  by (subst copy_tmp.simps) simp

lemma copy_tmp_pix:
  "length (fst (copy_tmp clipping srcOffset i (pixTmp, maskTmp))) = length pixTmp \<and>
   (\<forall>j. aget (fst (copy_tmp clipping srcOffset i (pixTmp, maskTmp))) j =
     (if i \<le> j \<and> j < c_byteStride clipping \<and> 0 \<le> j \<and> j < int (length pixTmp)
      then Some (word_of_int (toInt32 (aget (c_pixArray clipping) (srcOffset + j))))
      else aget pixTmp j))"
proof (induction "nat (c_byteStride clipping - i)" arbitrary: i pixTmp maskTmp)
  case 0
  then have "\<not> i < c_byteStride clipping" by simp
  then show ?case by (auto simp: copy_tmp_done)
next
  case (Suc n)
  then have lt: "i < c_byteStride clipping" and n: "n = nat (c_byteStride clipping - (i + 1))"
    by auto
  note ih = Suc.hyps(1) [OF n,
      of "aset pixTmp i (toInt32 (aget (c_pixArray clipping) (srcOffset + i)))"]
  show ?case
    unfolding copy_tmp_unfold [OF lt]
    using lt by (auto simp: ih length_aset aget_aset)
qed

lemma put_cols_copy_unfold:
  "put_cols XFER_COPY rowOffset leftOutCol copyWidth adjustedStart pixTmp maskTmp byteCol rawBytes =
     (if byteCol < copyWidth then
        if leftOutCol + byteCol < 0
        then put_cols XFER_COPY rowOffset leftOutCol copyWidth adjustedStart pixTmp maskTmp
               (byteCol + 1) rawBytes
        else if leftOutCol + byteCol \<ge> NUM_COL_BYTES then Returned rawBytes
        else if \<not> (byteCol + adjustedStart < int (length pixTmp))
        then Threw AssertionFailed rawBytes
        else put_cols XFER_COPY rowOffset leftOutCol copyWidth adjustedStart pixTmp maskTmp
               (byteCol + 1)
               (aset rawBytes (rowOffset + (leftOutCol + byteCol))
                  (((toInt32 (aget pixTmp (byteCol + adjustedStart)) XOR
                     toInt32 (aget rawBytes (rowOffset + (leftOutCol + byteCol)))) AND
                    toInt32 (aget maskTmp (byteCol + adjustedStart))) XOR
                   toInt32 (aget rawBytes (rowOffset + (leftOutCol + byteCol)))))
      else Returned rawBytes)"
  by (subst put_cols.simps)
     (simp add: Let_def XFER_XOR_def XFER_MERGE_def XFER_COPY_def)

lemma put_cols_copy_same:
  assumes "copyWidth + adjustedStart \<le> int (length pixTmp)"
    and "\<And>bc. byteCol \<le> bc \<Longrightarrow> bc < copyWidth \<Longrightarrow>
          toInt32 (aget pixTmp (bc + adjustedStart))
            = toInt32 (aget rawBytes (rowOffset + (leftOutCol + bc)))"
  shows "put_cols XFER_COPY rowOffset leftOutCol copyWidth adjustedStart pixTmp maskTmp byteCol
           rawBytes = Returned rawBytes"
  using assms(2)
proof (induction "nat (copyWidth - byteCol)" arbitrary: byteCol)
  case 0
  then have "\<not> byteCol < copyWidth" by simp
  then show ?case by (subst put_cols_copy_unfold) simp
next
  case (Suc n)
  then have lt: "byteCol < copyWidth" and n: "n = nat (copyWidth - (byteCol + 1))" by auto
  have ih: "put_cols XFER_COPY rowOffset leftOutCol copyWidth adjustedStart pixTmp maskTmp
      (byteCol + 1) rawBytes = Returned rawBytes"
    using Suc.prems by (intro Suc.hyps(1) [OF n]) auto
  let ?i = "rowOffset + (leftOutCol + byteCol)"
  have same: "toInt32 (aget pixTmp (byteCol + adjustedStart)) = toInt32 (aget rawBytes ?i)"
    using Suc.prems [of byteCol] lt by simp
  have keep: "aset rawBytes ?i (toInt32 (aget rawBytes ?i)) = rawBytes"
    by (rule aset_same_value) simp
  have inb: "byteCol + adjustedStart < int (length pixTmp)" using lt assms(1) by simp
  show ?case
    by (subst put_cols_copy_unfold) (simp add: lt inb same keep ih)
qed


lemma put_rows_copy_same:
  assumes "copyWidth \<le> c_byteStride clipping"
    and "int (length pixTmp) = c_byteStride clipping + 1"
    and "\<And>r i off. row \<le> r \<Longrightarrow> r < c_height clipping \<Longrightarrow> 0 \<le> i \<Longrightarrow> i < copyWidth \<Longrightarrow>
           rowToOffset (r + yc) = Inr off \<Longrightarrow>
           aget (c_pixArray clipping) (r * c_byteStride clipping + i)
             = Some (word_of_int (toInt32 (aget rawBytes (off + (leftOutCol + i)))))"
  shows "\<exists>pt' mt'. put_rows clipping yc XFER_COPY 0 0 leftOutCol copyWidth row
            (rawBytes, pixTmp, maskTmp) = Returned (rawBytes, pt', mt')"
  using assms(2,3)
proof (induction "nat (c_height clipping - row)" arbitrary: row pixTmp maskTmp)
  case 0
  then have "\<not> row < c_height clipping" by simp
  then show ?case by (subst put_rows.simps) simp
next
  case (Suc n)
  then have lt: "row < c_height clipping" and n: "n = nat (c_height clipping - (row + 1))"
    by auto
  have ih: "int (length pt) = c_byteStride clipping + 1 \<Longrightarrow>
      \<exists>pt' mt'. put_rows clipping yc XFER_COPY 0 0 leftOutCol copyWidth (row + 1)
            (rawBytes, pt, mt) = Returned (rawBytes, pt', mt')" for pt mt
    using Suc.prems(2) by (intro Suc.hyps(1) [OF n]) auto
  show ?case
  proof (cases "row + yc < 0")
    case True
    have "put_rows clipping yc XFER_COPY 0 0 leftOutCol copyWidth row (rawBytes, pixTmp, maskTmp)
        = put_rows clipping yc XFER_COPY 0 0 leftOutCol copyWidth (row + 1)
            (rawBytes, pixTmp, maskTmp)"
      by (subst put_rows.simps) (simp only: lt True if_True Let_def)
    with ih [OF Suc.prems(1)] show ?thesis by simp
  next
    case neg: False
    show ?thesis
    proof (cases "row + yc \<ge> NUM_ROWS")
      case True
      have "put_rows clipping yc XFER_COPY 0 0 leftOutCol copyWidth row (rawBytes, pixTmp, maskTmp)
        = Returned (rawBytes, pixTmp, maskTmp)"
        by (subst put_rows.simps) (simp only: lt neg True if_True if_False Let_def)
      then show ?thesis by blast
    next
      case False
      then obtain rowOffset where ro: "rowToOffset (row + yc) = Inr rowOffset"
        using rowToOffset_valid [of "row + yc"] neg by auto
      define tmps where "tmps = copy_tmp clipping (row * c_byteStride clipping) 0 (pixTmp, maskTmp)"
      from copy_tmp_pix [of clipping "row * c_byteStride clipping" 0 pixTmp maskTmp]
      have len1: "length (fst tmps) = length pixTmp"
        and get1: "\<And>j. aget (fst tmps) j =
           (if 0 \<le> j \<and> j < c_byteStride clipping \<and> j < int (length pixTmp)
            then Some (word_of_int (toInt32 (aget (c_pixArray clipping)
                         (row * c_byteStride clipping + j))))
            else aget pixTmp j)"
        unfolding tmps_def by auto
      have unf: "put_rows clipping yc XFER_COPY 0 0 leftOutCol copyWidth row
            (rawBytes, pixTmp, maskTmp) =
         (case put_cols XFER_COPY rowOffset leftOutCol copyWidth 0 (fst tmps) (snd tmps) 0
                 rawBytes of
            Threw e rawBytes' \<Rightarrow> Threw e (rawBytes', fst tmps, snd tmps)
          | Returned rawBytes' \<Rightarrow>
              put_rows clipping yc XFER_COPY 0 0 leftOutCol copyWidth (row + 1)
                (rawBytes', fst tmps, snd tmps))"
        unfolding tmps_def
        by (subst put_rows.simps)
           (simp only: lt neg False if_True if_False Let_def ro sum.case refl)
      have cols: "put_cols XFER_COPY rowOffset leftOutCol copyWidth 0 (fst tmps) (snd tmps) 0
                 rawBytes = Returned rawBytes"
      proof (rule put_cols_copy_same)
        show "copyWidth + 0 \<le> int (length (fst tmps))"
          using assms(1) Suc.prems(1) by (simp add: len1)
      next
        fix bc :: int assume bc: "0 \<le> bc" "bc < copyWidth"
        have "aget (fst tmps) (bc + 0)
            = Some (word_of_int (toInt32 (aget (c_pixArray clipping)
                         (row * c_byteStride clipping + bc))))"
          using bc assms(1) Suc.prems(1) by (simp add: get1)
        also have "aget (c_pixArray clipping) (row * c_byteStride clipping + bc)
            = Some (word_of_int (toInt32 (aget rawBytes (rowOffset + (leftOutCol + bc)))))"
          using Suc.prems(2) [OF order_refl lt bc ro] .
        finally show "toInt32 (aget (fst tmps) (bc + 0))
            = toInt32 (aget rawBytes (rowOffset + (leftOutCol + bc)))"
          by (simp add: toInt32_roundtrip)
      qed
      have "int (length (fst tmps)) = c_byteStride clipping + 1"
        using Suc.prems(1) by (simp add: len1)
      from ih [OF this, of "snd tmps"] show ?thesis
        by (simp add: unf cols)
    qed
  qed
qed

lemma clipping_round_trip:
  assumes "isValidScreenArea left top_row width height"
  shows "\<exists>c. createClipping rawBytes left top_row width height = Inr c \<and>
             putClipping rawBytes c left top_row XFER_COPY = Returned rawBytes"
proof -
  define byteWidth where "byteWidth = (left + width - 1) div 7 - left div 7 + 1"
  from createClipping_pix [OF assms, of rawBytes, folded byteWidth_def]
  obtain c where c: "createClipping rawBytes left top_row width height = Inr c"
    and f: "c_width c = width" "c_height c = height" "c_byteStride c = byteWidth"
       "c_leftOff c = left mod 7"
    and cells: "\<And>r i off. 0 \<le> r \<Longrightarrow> r < height \<Longrightarrow> 0 \<le> i \<Longrightarrow> i < byteWidth \<Longrightarrow>
           rowToOffset (top_row + r) = Inr off \<Longrightarrow>
         aget (c_pixArray c) (r * byteWidth + i)
           = Some (word_of_int (toInt32 (aget rawBytes (off + left div 7 + i))))"
    by blast
  from assms have v: "0 \<le> left" "0 < width"
    by (auto simp: isValidScreenArea_def)
  have "left div 7 \<le> (left + width - 1) div 7"
    using v(2) by (intro zdiv_mono1) auto
  then have bw: "0 < byteWidth" by (simp add: byteWidth_def)
  let ?tmp = "replicate (nat (byteWidth + 1)) (0::byte)"
  have "\<exists>pt' mt'. put_rows c top_row XFER_COPY 0 0 (left div 7) byteWidth 0
            (rawBytes, ?tmp, ?tmp) = Returned (rawBytes, pt', mt')"
  proof (rule put_rows_copy_same)
    show "byteWidth \<le> c_byteStride c" by (simp add: f)
    show "int (length ?tmp) = c_byteStride c + 1" using bw by (simp add: f)
  next
    fix r i off
    assume "0 \<le> r" "r < c_height c" "0 \<le> i" "i < byteWidth" "rowToOffset (r + top_row) = Inr off"
    then show "aget (c_pixArray c) (r * c_byteStride c + i)
             = Some (word_of_int (toInt32 (aget rawBytes (off + (left div 7 + i)))))"
      using cells [of r i off] by (simp add: f ac_simps)
  qed
  then obtain pt' mt' where rows: "put_rows c top_row XFER_COPY 0 0 (left div 7) byteWidth 0
            (rawBytes, ?tmp, ?tmp) = Returned (rawBytes, pt', mt')"
    by blast
  have e5: "(left mod 7 < 0) = False" by simp
  have e7: "(left + width - 1) div 7 - left div 7 \<le> byteWidth"
    "(left + width - 1) div 7 - left div 7 + 1 = byteWidth"
    by (simp_all add: byteWidth_def)
  have "putClipping rawBytes c left top_row XFER_COPY = Returned rawBytes"
    using v bw rows
    by (simp add: putClipping_def f isValidXferMode_def Let_def js_rem_nonneg e5 e7)
  with c show ?thesis by blast
qed

text \<open>
  C1. For every buffer and every rectangle that is valid on screen and byte-aligned
  (\<^verbatim>\<open>left % 7 == 0\<close> and \<^verbatim>\<open>width % 7 == 0\<close>), \<^verbatim>\<open>createClipping\<close> returns a clipping, and
  pasting it at the rectangle's own position with the COPY transfer mode returns and leaves
  the raw buffer identical to what it was before the paste.
\<close>

theorem createClipping_putClipping_copy:
  assumes "isValidScreenArea left top_row width height" "left mod 7 = 0" "width mod 7 = 0"
  shows "\<exists>c. createClipping rawBytes left top_row width height = Inr c \<and>
             c_leftOff c = 0 \<and>
             putClipping rawBytes c left top_row XFER_COPY = Returned rawBytes"
proof -
  from clipping_round_trip [OF assms(1), of rawBytes]
  obtain c where c: "createClipping rawBytes left top_row width height = Inr c"
     "putClipping rawBytes c left top_row XFER_COPY = Returned rawBytes"
    by blast
  from createClipping_pix [OF assms(1), of rawBytes] c(1) assms(2)
  have "c_leftOff c = 0" by auto
  with c show ?thesis by blast
qed

theorem createClipping_putClipping_copy_witness:
  "isValidScreenArea 7 10 14 3 \<and> (7::int) mod 7 = 0 \<and> (14::int) mod 7 = 0 \<and>
   (\<exists>c. createClipping (replicate 8184 0x2a) 7 10 14 3 = Inr c \<and>
        c_leftOff c = 0 \<and>
        putClipping (replicate 8184 0x2a) c 7 10 XFER_COPY = Returned (replicate 8184 0x2a))"
proof -
  have v: "isValidScreenArea 7 10 14 3" by (simp add: isValidScreenArea_def)
  from createClipping_putClipping_copy [OF v, of "replicate 8184 0x2a"] v
  show ?thesis by simp
qed


section \<open>Claims about doFlood\<close>

lemma flood_loop_Nil: "flood_loop w h repColor newColor colorMap [] = Some colorMap"
  by (subst flood_loop.simps) simp

lemma push_if_west:
  "(if 0 < nx \<and> aget m (ny * 280 + nx - 1) = r then (nx - 1, ny) # l else l) =
   push_if (0 < nx) r m (nx - 1, ny) l"
  by (simp add: push_if_def cell_index_def algebra_simps)

lemma push_if_east:
  "(if nx < 280 - 1 \<and> aget m (ny * 280 + nx + 1) = r then (nx + 1, ny) # l else l) =
   push_if (nx < 280 - 1) r m (nx + 1, ny) l"
  by (simp add: push_if_def cell_index_def algebra_simps)

lemma push_if_north:
  "(if 0 < ny \<and> aget m ((ny - 1) * 280 + nx) = r then (nx, ny - 1) # l else l) =
   push_if (0 < ny) r m (nx, ny - 1) l"
  by (simp add: push_if_def cell_index_def algebra_simps)

lemma push_if_south:
  "(if ny < 192 - 1 \<and> aget m ((ny + 1) * 280 + nx) = r then (nx, ny + 1) # l else l) =
   push_if (ny < 192 - 1) r m (nx, ny + 1) l"
  by (simp add: push_if_def cell_index_def algebra_simps)

lemma flood_loop_Cons:
  "flood_loop NUM_COLS NUM_ROWS repColor newColor colorMap ((nx, ny) # rest) =
   flood_loop NUM_COLS NUM_ROWS repColor newColor (aset colorMap (cell_index (nx, ny)) newColor)
     (flood_push repColor (aset colorMap (cell_index (nx, ny)) newColor) nx ny rest)"
  by (subst flood_loop.simps [of NUM_COLS NUM_ROWS repColor newColor colorMap "(nx, ny) # rest"])
     (simp only: list.case prod.case Let_def push_if_west push_if_east push_if_north
        push_if_south flood_push_def cell_index_def fst_conv snd_conv)

lemma set_push_if:
  "set (push_if b repColor m n l) =
     (if b \<and> aget m (cell_index n) = repColor then insert n (set l) else set l)"
  by (simp add: push_if_def)

lemma stale_push_if: "stale_count repColor m (push_if b repColor m n l) = stale_count repColor m l"
  by (simp add: push_if_def stale_count_def)

lemma stale_flood_push:
  "stale_count repColor m (flood_push repColor m nx ny rest) = stale_count repColor m rest"
  by (simp only: flood_push_def stale_push_if)

lemma rest_in_flood_push: "set rest \<subseteq> set (flood_push repColor m nx ny rest)"
proof -
  have "set l \<subseteq> set (push_if b repColor m n l)" for b n l
    by (simp add: push_if_def subset_insertI)
  then have keep: "\<And>l b n x. x \<in> set l \<Longrightarrow> x \<in> set (push_if b repColor m n l)" by blast
  show ?thesis
  proof (rule subsetI)
    fix x assume "x \<in> set rest"
    then show "x \<in> set (flood_push repColor m nx ny rest)"
      unfolding flood_push_def by (intro keep)
  qed
qed

lemma in_push_ifE:
  assumes "c \<in> set (push_if b repColor m n l)"
  obtains "c \<in> set l" | "c = n" "b" "aget m (cell_index n) = repColor"
  using assms by (auto simp: push_if_def split: if_splits)

lemma in_flood_push:
  assumes "c \<in> set (flood_push repColor m nx ny rest)" "on_screen (nx, ny)"
  shows "c \<in> set rest \<or>
         (adjacent (nx, ny) c \<and> on_screen c \<and> aget m (cell_index c) = repColor)"
proof -
  note h = assms(1) [unfolded flood_push_def]
  from assms(2) have s: "0 \<le> nx" "nx < NUM_COLS" "0 \<le> ny" "ny < NUM_ROWS"
    by (simp_all add: on_screen_def)
  from h show ?thesis
  proof (cases rule: in_push_ifE)
    case 2
    with s show ?thesis by (simp add: adjacent_def on_screen_def)
  next
    case 1
    then show ?thesis
    proof (cases rule: in_push_ifE)
      case 2
      with s show ?thesis by (simp add: adjacent_def on_screen_def)
    next
      case 1
      then show ?thesis
      proof (cases rule: in_push_ifE)
        case 2
        with s show ?thesis by (simp add: adjacent_def on_screen_def)
      next
        case 1
        then show ?thesis
        proof (cases rule: in_push_ifE)
          case 2
          with s show ?thesis by (simp add: adjacent_def on_screen_def)
        next
          case 1
          then show ?thesis by simp
        qed
      qed
    qed
  qed
qed

lemma neighbour_in_flood_push:
  assumes "adjacent (nx, ny) c" "on_screen c" "aget m (cell_index c) = repColor"
  shows "c \<in> set (flood_push repColor m nx ny rest)"
proof -
  have keep: "c \<in> set l \<Longrightarrow> c \<in> set (push_if b repColor m n l)" for b n l
    by (simp add: push_if_def)
  have new: "b \<Longrightarrow> c \<in> set (push_if b repColor m c l)" for b l
    using assms(3) by (simp add: push_if_def)
  from assms(1) have "c = (nx, ny + 1) \<or> c = (nx, ny - 1) \<or> c = (nx + 1, ny) \<or> c = (nx - 1, ny)"
    by (cases c) (auto simp: adjacent_def)
  then consider (d) "c = (nx, ny + 1)" | (u) "c = (nx, ny - 1)" | (r) "c = (nx + 1, ny)"
    | (l) "c = (nx - 1, ny)"
    by blast
  then show ?thesis
  proof cases
    case d
    with assms(2) have b: "ny < NUM_ROWS - 1" by (simp add: on_screen_def)
    have "c \<in> set (push_if (ny < NUM_ROWS - 1) repColor m c
       (push_if (ny > 0) repColor m (nx, ny - 1)
         (push_if (nx < NUM_COLS - 1) repColor m (nx + 1, ny)
           (push_if (nx > 0) repColor m (nx - 1, ny) rest))))"
      by (rule new) (rule b)
    then show ?thesis by (simp only: flood_push_def d)
  next
    case u
    with assms(2) have b: "ny > 0" by (simp add: on_screen_def)
    have "c \<in> set (push_if (ny < NUM_ROWS - 1) repColor m (nx, ny + 1)
       (push_if (ny > 0) repColor m c
         (push_if (nx < NUM_COLS - 1) repColor m (nx + 1, ny)
           (push_if (nx > 0) repColor m (nx - 1, ny) rest))))"
      by (rule keep, rule new) (rule b)
    then show ?thesis by (simp only: flood_push_def u)
  next
    case r
    with assms(2) have b: "nx < NUM_COLS - 1" by (simp add: on_screen_def)
    have "c \<in> set (push_if (ny < NUM_ROWS - 1) repColor m (nx, ny + 1)
       (push_if (ny > 0) repColor m (nx, ny - 1)
         (push_if (nx < NUM_COLS - 1) repColor m c
           (push_if (nx > 0) repColor m (nx - 1, ny) rest))))"
      by (rule keep, rule keep, rule new) (rule b)
    then show ?thesis by (simp only: flood_push_def r)
  next
    case l
    with assms(2) have b: "nx > 0" by (simp add: on_screen_def)
    have "c \<in> set (push_if (ny < NUM_ROWS - 1) repColor m (nx, ny + 1)
       (push_if (ny > 0) repColor m (nx, ny - 1)
         (push_if (nx < NUM_COLS - 1) repColor m (nx + 1, ny)
           (push_if (nx > 0) repColor m c rest))))"
      by (rule keep, rule keep, rule keep, rule new) (rule b)
    then show ?thesis by (simp only: flood_push_def l)
  qed
qed


lemma cell_index_range: "on_screen c \<Longrightarrow> 0 \<le> cell_index c \<and> cell_index c < 53760"
  by (auto simp: on_screen_def cell_index_def)

lemma cell_index_inj:
  assumes "on_screen c" "on_screen c'" "cell_index c = cell_index c'"
  shows "c = c'"
proof -
  from assms have b: "0 \<le> fst c" "fst c < 280" "0 \<le> fst c'" "fst c' < 280"
    and e: "snd c * 280 + fst c = snd c' * 280 + fst c'"
    by (simp_all add: on_screen_def cell_index_def)
  from b e have y: "snd c = snd c'" by linarith
  with e have "fst c = fst c'" by simp
  then show ?thesis using y by (rule prod_eqI)
qed

lemma region_on_screen: "c \<in> region m0 start \<Longrightarrow> on_screen start \<Longrightarrow> on_screen c"
  by (induction rule: region.induct) simp_all

lemma region_color:
  "c \<in> region m0 start \<Longrightarrow> aget m0 (cell_index c) = aget m0 (cell_index start)"
  by (induction rule: region.induct) simp_all

lemma filter_update_less:
  "i < length xs \<Longrightarrow> P (xs ! i) \<Longrightarrow> \<not> P x \<Longrightarrow>
   length (filter P (xs[i := x])) < length (filter P xs)"
proof (induction xs arbitrary: i)
  case Nil
  then show ?case by simp
next
  case (Cons a xs)
  show ?case
  proof (cases i)
    case 0
    with Cons.prems show ?thesis by (simp add: le_imp_less_Suc)
  next
    case (Suc j)
    with Cons.prems have "length (filter P (xs[j := x])) < length (filter P xs)"
      by (intro Cons.IH) simp_all
    with Suc show ?thesis by simp
  qed
qed

lemma unmarked_count_aset:
  assumes "aget m i = repColor" "repColor = Some v" "word_of_int newColor \<noteq> v"
  shows "unmarked_count repColor (aset m i newColor) < unmarked_count repColor m"
proof -
  from assms(1,2) have r: "0 \<le> i" "i < int (length m)" "m ! nat i = v"
    by (auto simp: aget_def split: if_splits)
  have "length (filter (\<lambda>w. Some w = repColor) (m[nat i := word_of_int newColor]))
        < length (filter (\<lambda>w. Some w = repColor) m)"
    using r assms(2,3) by (intro filter_update_less) auto
  with r show ?thesis by (simp add: unmarked_count_def aset_def)
qed

lemma aset_marked:
  assumes "aget m i = Some (word_of_int newColor)"
  shows "aset m i newColor = m"
proof -
  from assms have "0 \<le> i" "i < int (length m)" "m ! nat i = word_of_int newColor"
    by (auto simp: aget_def split: if_splits)
  then show ?thesis by (simp add: aset_def list_update_same_conv)
qed

lemma flood_invD:
  assumes "flood_inv m0 start mk m st"
  shows "length m = length m0"
    and "\<And>c. on_screen c \<Longrightarrow>
           (aget m (cell_index c) = Some mk \<and> c \<in> region m0 start) \<or>
           aget m (cell_index c) = aget m0 (cell_index c)"
    and "set st \<subseteq> region m0 start"
    and "\<And>c n. on_screen c \<Longrightarrow> aget m (cell_index c) = Some mk \<Longrightarrow> adjacent c n \<Longrightarrow>
           on_screen n \<Longrightarrow> aget m0 (cell_index n) = aget m0 (cell_index start) \<Longrightarrow>
           aget m (cell_index n) = Some mk \<or> n \<in> set st"
    and "aget m (cell_index start) = Some mk \<or> start \<in> set st"
  using assms unfolding flood_inv_def by blast+

lemma flood_invI:
  assumes "length m = length m0"
    and "\<And>c. on_screen c \<Longrightarrow>
           (aget m (cell_index c) = Some mk \<and> c \<in> region m0 start) \<or>
           aget m (cell_index c) = aget m0 (cell_index c)"
    and "set st \<subseteq> region m0 start"
    and "\<And>c n. on_screen c \<Longrightarrow> aget m (cell_index c) = Some mk \<Longrightarrow> adjacent c n \<Longrightarrow>
           on_screen n \<Longrightarrow> aget m0 (cell_index n) = aget m0 (cell_index start) \<Longrightarrow>
           aget m (cell_index n) = Some mk \<or> n \<in> set st"
    and "aget m (cell_index start) = Some mk \<or> start \<in> set st"
  shows "flood_inv m0 start mk m st"
  unfolding flood_inv_def using assms by blast

lemma flood_inv_init:
  assumes "mk \<notin> set m0"
  shows "flood_inv m0 start mk m0 [start]"
proof (rule flood_invI)
  show "length m0 = length m0" by simp
  show "set [start] \<subseteq> region m0 start" by (simp add: region.start)
  show "aget m0 (cell_index start) = Some mk \<or> start \<in> set [start]" by simp
next
  fix c
  show "(aget m0 (cell_index c) = Some mk \<and> c \<in> region m0 start) \<or>
        aget m0 (cell_index c) = aget m0 (cell_index c)" by simp
next
  fix c n
  assume "aget m0 (cell_index c) = Some mk"
  with assms have False by (auto simp: aget_def split: if_splits)
  then show "aget m0 (cell_index n) = Some mk \<or> n \<in> set [start]" ..
qed

lemma flood_inv_step:
  assumes inv: "flood_inv m0 start mk m ((nx, ny) # rest)"
    and len: "length m0 = 53760"
    and os: "on_screen start"
    and rep: "repColor = aget m0 (cell_index start)"
    and ne: "Some mk \<noteq> repColor"
    and mk: "mk = word_of_int newColor"
  shows "flood_inv m0 start mk (aset m (cell_index (nx, ny)) newColor)
           (flood_push repColor (aset m (cell_index (nx, ny)) newColor) nx ny rest)"
proof -
  define p where "p = (nx, ny)"
  define m' where "m' = aset m (cell_index p) newColor"
  define st' where "st' = flood_push repColor m' nx ny rest"
  note I = flood_invD [OF inv [folded p_def]]
  from I(3) have p_reg: "p \<in> region m0 start" and rest_reg: "set rest \<subseteq> region m0 start"
    by simp_all
  from p_reg os have p_os: "on_screen p" by (rule region_on_screen)
  from cell_index_range [OF p_os] I(1) len
  have p_in: "0 \<le> cell_index p \<and> cell_index p < int (length m)" by simp
  have get_p: "aget m' (cell_index p) = Some mk"
    using p_in by (simp add: m'_def aget_aset_same mk)
  have get_o: "aget m' (cell_index c) = aget m (cell_index c)" if "on_screen c" "c \<noteq> p" for c
  proof -
    from that p_os have "cell_index c \<noteq> cell_index p" using cell_index_inj by blast
    then show ?thesis by (simp add: m'_def aget_aset_other)
  qed
  have keep: "aget m' (cell_index c) = Some mk"
    if "on_screen c" "aget m (cell_index c) = Some mk" for c
    using that get_p get_o by (cases "c = p") simp_all
  have J2: "(aget m' (cell_index c) = Some mk \<and> c \<in> region m0 start) \<or>
            aget m' (cell_index c) = aget m0 (cell_index c)" if "on_screen c" for c
  proof (cases "c = p")
    case True
    with get_p p_reg show ?thesis by simp
  next
    case False
    with that have "aget m' (cell_index c) = aget m (cell_index c)" by (simp add: get_o)
    with I(2) [OF that] show ?thesis by simp
  qed
  have J3: "set st' \<subseteq> region m0 start"
  proof
    fix c assume "c \<in> set st'"
    then have "c \<in> set (flood_push repColor m' nx ny rest)" by (simp add: st'_def)
    from in_flood_push [OF this p_os [unfolded p_def]]
    consider "c \<in> set rest"
      | "adjacent p c" "on_screen c" "aget m' (cell_index c) = repColor"
      unfolding p_def by blast
    then show "c \<in> region m0 start"
    proof cases
      case 1
      with rest_reg show ?thesis by blast
    next
      case 2
      from J2 [OF 2(2)] 2(3) ne have "aget m0 (cell_index c) = repColor" by auto
      with rep have "aget m0 (cell_index c) = aget m0 (cell_index start)" by simp
      from region.step [OF p_reg 2(1) 2(2) this] show ?thesis .
    qed
  qed
  have rest_sub: "set rest \<subseteq> set st'"
    unfolding st'_def by (rule rest_in_flood_push)
  have J4: "aget m' (cell_index n) = Some mk \<or> n \<in> set st'"
    if c: "on_screen c" "aget m' (cell_index c) = Some mk" and adj: "adjacent c n"
      and n: "on_screen n" "aget m0 (cell_index n) = aget m0 (cell_index start)" for c n
  proof (cases "c = p")
    case True
    show ?thesis
    proof (cases "aget m' (cell_index n) = Some mk")
      case True
      then show ?thesis ..
    next
      case False
      with J2 [OF n(1)] have "aget m' (cell_index n) = aget m0 (cell_index n)" by blast
      with n(2) rep have col: "aget m' (cell_index n) = repColor" by simp
      from adj \<open>c = p\<close> have "adjacent (nx, ny) n" by (simp add: p_def)
      from neighbour_in_flood_push [OF this n(1) col] have "n \<in> set st'"
        by (simp add: st'_def)
      then show ?thesis ..
    qed
  next
    case False
    with c have "aget m (cell_index c) = Some mk" by (simp add: get_o)
    from I(4) [OF c(1) this adj n]
    consider "aget m (cell_index n) = Some mk" | "n = p" | "n \<in> set rest" by auto
    then show ?thesis
    proof cases
      case 1
      with n(1) show ?thesis by (simp add: keep)
    next
      case 2
      with get_p show ?thesis by simp
    next
      case 3
      with rest_sub show ?thesis by blast
    qed
  qed
  have J5: "aget m' (cell_index start) = Some mk \<or> start \<in> set st'"
  proof -
    from I(5) consider "aget m (cell_index start) = Some mk" | "start = p"
      | "start \<in> set rest" by auto
    then show ?thesis
    proof cases
      case 1
      with os show ?thesis by (simp add: keep)
    next
      case 2
      with get_p show ?thesis by simp
    next
      case 3
      with rest_sub show ?thesis by blast
    qed
  qed
  have "flood_inv m0 start mk m' st'"
  proof (rule flood_invI)
    show "length m' = length m0" using I(1) by (simp add: m'_def length_aset)
    show "set st' \<subseteq> region m0 start" by (rule J3)
    show "aget m' (cell_index start) = Some mk \<or> start \<in> set st'" by (rule J5)
  next
    fix c assume "on_screen c"
    then show "(aget m' (cell_index c) = Some mk \<and> c \<in> region m0 start) \<or>
               aget m' (cell_index c) = aget m0 (cell_index c)" by (rule J2)
  next
    fix c n
    assume "on_screen c" "aget m' (cell_index c) = Some mk" "adjacent c n" "on_screen n"
      "aget m0 (cell_index n) = aget m0 (cell_index start)"
    then show "aget m' (cell_index n) = Some mk \<or> n \<in> set st'" by (rule J4)
  qed
  then show ?thesis by (simp only: m'_def st'_def p_def)
qed

lemma flood_inv_final:
  assumes inv: "flood_inv m0 start mk m []" and os: "on_screen start" and c: "on_screen c"
  shows "aget m (cell_index c) =
           (if c \<in> region m0 start then Some mk else aget m0 (cell_index c))"
proof -
  note I = flood_invD [OF inv]
  have marked: "aget m (cell_index d) = Some mk" if "d \<in> region m0 start" for d
    using that
  proof (induction rule: region.induct)
    case start
    from I(5) show ?case by simp
  next
    case (step d n)
    from step(1) os have "on_screen d" by (rule region_on_screen)
    from I(4) [OF this step.IH step(2) step(3) step(4)] show ?case by simp
  qed
  show ?thesis
  proof (cases "c \<in> region m0 start")
    case True
    then show ?thesis by (simp add: marked)
  next
    case False
    with I(2) [OF c] show ?thesis by simp
  qed
qed

lemma flood_loop_terminates:
  assumes len: "length m0 = 53760"
    and os: "on_screen start"
    and rep: "repColor = aget m0 (cell_index start)"
    and ne: "Some mk \<noteq> repColor"
    and mk: "mk = word_of_int newColor"
  shows "flood_inv m0 start mk m st \<Longrightarrow>
         \<exists>m'. flood_loop NUM_COLS NUM_ROWS repColor newColor m st = Some m' \<and>
              flood_inv m0 start mk m' []"
proof (induction "unmarked_count repColor m" arbitrary: m st rule: less_induct)
  case outer: less
  show ?case using outer.prems
  proof (induction "stale_count repColor m st" arbitrary: st rule: less_induct)
    case inner: less
    show ?case
    proof (cases st)
      case Nil
      with inner.prems show ?thesis by (simp add: flood_loop_Nil)
    next
      case (Cons p rest)
      obtain nx ny where p: "p = (nx, ny)" by (cases p)
      note inv = inner.prems [unfolded Cons p]
      note I = flood_invD [OF inv]
      define m' where "m' = aset m (cell_index (nx, ny)) newColor"
      define st' where "st' = flood_push repColor m' nx ny rest"
      have inv': "flood_inv m0 start mk m' st'"
        unfolding m'_def st'_def by (rule flood_inv_step [OF inv len os rep ne mk])
      have unfold: "flood_loop NUM_COLS NUM_ROWS repColor newColor m st =
                    flood_loop NUM_COLS NUM_ROWS repColor newColor m' st'"
        unfolding Cons p m'_def st'_def by (rule flood_loop_Cons)
      from I(3) have p_reg: "(nx, ny) \<in> region m0 start" by simp
      from p_reg os have p_os: "on_screen (nx, ny)" by (rule region_on_screen)
      from region_color [OF p_reg] rep
      have col0: "aget m0 (cell_index (nx, ny)) = repColor" by simp
      from I(2) [OF p_os] col0
      consider (fresh) "aget m (cell_index (nx, ny)) = repColor"
        | (stale) "aget m (cell_index (nx, ny)) = Some mk" by auto
      then have "\<exists>r. flood_loop NUM_COLS NUM_ROWS repColor newColor m' st' = Some r \<and>
                     flood_inv m0 start mk r []"
      proof cases
        case fresh
        from cell_index_range [OF os] len rep ne obtain v where v: "repColor = Some v" "mk \<noteq> v"
          by (cases repColor) (auto simp: aget_def split: if_splits)
        from unmarked_count_aset [OF fresh v(1)] v(2) mk
        have "unmarked_count repColor m' < unmarked_count repColor m"
          by (simp add: m'_def)
        from outer.hyps [OF this inv'] show ?thesis .
      next
        case stale
        with mk have same: "m' = m" by (simp add: m'_def aset_marked)
        from stale ne have "aget m (cell_index (nx, ny)) \<noteq> repColor" by auto
        then have "stale_count repColor m st = Suc (stale_count repColor m rest)"
          by (simp add: Cons p stale_count_def)
        moreover have "stale_count repColor m st' = stale_count repColor m rest"
          by (simp add: st'_def same stale_flood_push)
        ultimately have "stale_count repColor m st' < stale_count repColor m st" by simp
        from inner.hyps [OF this inv' [unfolded same]] same show ?thesis by simp
      qed
      with unfold show ?thesis by simp
    qed
  qed
qed


text \<open>
  C6. On a colour map of 280 by 192 cells whose values are at most 7, started at a
  cell of the screen with the marker 0xff, \<^verbatim>\<open>doFlood\<close> returns; the map it leaves has the
  same length, holds the marker in exactly the cells of the 4-connected component of the
  start cell among the cells that had the start cell's value, and holds the original value
  in every other cell.
\<close>

theorem doFlood_marks_component:
  assumes "int (length colorMap) = NUM_COLS * NUM_ROWS"
    and "\<forall>v\<in>set colorMap. v \<le> 7"
    and "on_screen (xc, yc)"
  shows "\<exists>colorMap'. doFlood xc yc 0xff colorMap = Some colorMap' \<and>
           length colorMap' = length colorMap \<and>
           (\<forall>c. on_screen c \<longrightarrow>
              aget colorMap' (cell_index c) =
                (if c \<in> region colorMap (xc, yc) then Some 0xff
                 else aget colorMap (cell_index c)))"
proof -
  define repColor where "repColor = aget colorMap (cell_index (xc, yc))"
  define mk :: byte where "mk = word_of_int 0xff"
  from assms(1) have len: "length colorMap = 53760" by simp
  have mk_val: "mk = 0xff" by (simp add: mk_def)
  have fresh: "mk \<notin> set colorMap"
  proof
    assume "mk \<in> set colorMap"
    with assms(2) have "mk \<le> 7" by blast
    then show False by (simp add: mk_val)
  qed
  from cell_index_range [OF assms(3)] len
  have "repColor = Some (colorMap ! nat (cell_index (xc, yc)))"
    and "nat (cell_index (xc, yc)) < length colorMap"
    by (auto simp: repColor_def aget_def)
  with fresh have ne: "Some mk \<noteq> repColor" by (metis nth_mem option.inject)
  from flood_loop_terminates [OF len assms(3) repColor_def ne mk_def flood_inv_init [OF fresh]]
  obtain m' where run: "flood_loop NUM_COLS NUM_ROWS repColor 0xff colorMap [(xc, yc)] = Some m'"
    and inv: "flood_inv colorMap (xc, yc) mk m' []" by blast
  from run have "doFlood xc yc 0xff colorMap = Some m'"
    by (simp add: doFlood_def Let_def repColor_def cell_index_def)
  moreover from flood_invD(1) [OF inv] have "length m' = length colorMap" .
  moreover have "\<forall>c. on_screen c \<longrightarrow>
      aget m' (cell_index c) =
        (if c \<in> region colorMap (xc, yc) then Some 0xff else aget colorMap (cell_index c))"
    using flood_inv_final [OF inv assms(3)] by (simp add: mk_val)
  ultimately show ?thesis by blast
qed

theorem doFlood_marks_component_witness:
  "\<exists>colorMap'. doFlood 0 0 0xff (replicate 280 1 @ replicate 53480 0) = Some colorMap' \<and>
     length colorMap' = 53760 \<and>
     aget colorMap' (cell_index (0, 0)) = Some 0xff \<and>
     aget colorMap' (cell_index (1, 0)) = Some 0xff \<and>
     aget colorMap' (cell_index (0, 1)) = Some 0"
proof -
  let ?m = "replicate 280 1 @ replicate 53480 (0::byte)"
  have h1: "int (length ?m) = NUM_COLS * NUM_ROWS" by simp
  have h2: "\<forall>v\<in>set ?m. v \<le> 7" by simp
  have h3: "on_screen (0, 0)" by (simp add: on_screen_def)
  from doFlood_marks_component [OF h1 h2 h3]
  obtain m' where run: "doFlood 0 0 0xff ?m = Some m'" and len: "length m' = length ?m"
    and cells: "\<And>c. on_screen c \<Longrightarrow> aget m' (cell_index c) =
          (if c \<in> region ?m (0, 0) then Some 0xff else aget ?m (cell_index c))"
    by blast
  have r0: "(0, 0) \<in> region ?m (0, 0)" by (rule region.start)
  have "(1, 0) \<in> region ?m (0, 0)"
    by (rule region.step [OF r0])
       (simp_all add: adjacent_def on_screen_def cell_index_def aget_def nth_append)
  then have c1: "aget m' (cell_index (1, 0)) = Some 0xff"
    using cells [of "(1, 0)"] by (simp add: on_screen_def)
  have "(0, 1) \<notin> region ?m (0, 0)"
  proof
    assume "(0, 1) \<in> region ?m (0, 0)"
    from region_color [OF this] show False
      by (simp add: cell_index_def aget_def nth_append)
  qed
  then have c2: "aget m' (cell_index (0, 1)) = Some 0"
    using cells [of "(0, 1)"] by (simp add: on_screen_def cell_index_def aget_def nth_append)
  have c0: "aget m' (cell_index (0, 0)) = Some 0xff"
    using cells [of "(0, 0)"] r0 h3 by simp
  from run len c0 c1 c2 show ?thesis by simp
qed

end
